theory Spec2Isabelle
  imports Main "HOL-Library.Sublist" "HOL-Library.Multiset" "HOL-Library.Word"
begin

section \<open>The restore loader of go-mydumper (src/common/loader.go)\<close>

text \<open>
  Strings are byte sequences, as Go's \<open>string\<close> is; \<open>length\<close> is Go's \<open>len\<close>.
  The library functions of package \<open>strings\<close> and \<open>path/filepath\<close> that the loader
  calls are written out below after their documented behaviour, on bytes. Every cutset
  and separator the loader passes is ASCII, for which the byte reading and the
  code-point reading of these functions agree.
\<close>

subsection \<open>Library functions used by the loader\<close>

definition HasSuffix :: "string \<Rightarrow> string \<Rightarrow> bool" where
  \<comment> \<open>\<open>len(s) >= len(suffix) && s[len(s)-len(suffix):] == suffix\<close>\<close>
  "HasSuffix s suf \<longleftrightarrow>
     length suf \<le> length s \<and> drop (length s - length suf) s = suf"

definition HasPrefix :: "string \<Rightarrow> string \<Rightarrow> bool" where
  \<comment> \<open>\<open>len(s) >= len(prefix) && s[:len(prefix)] == prefix\<close>\<close>
  "HasPrefix s pre \<longleftrightarrow> length pre \<le> length s \<and> take (length pre) s = pre"

definition TrimSuffix :: "string \<Rightarrow> string \<Rightarrow> string" where
  \<comment> \<open>removes the literal suffix once, when it is there\<close>
  "TrimSuffix s suf = (if HasSuffix s suf then take (length s - length suf) s else s)"

definition TrimLeft :: "string \<Rightarrow> string \<Rightarrow> string" where
  "TrimLeft s cutset = dropWhile (\<lambda>c. c \<in> set cutset) s"

definition TrimRight :: "string \<Rightarrow> string \<Rightarrow> string" where
  "TrimRight s cutset = rev (dropWhile (\<lambda>c. c \<in> set cutset) (rev s))"

definition Trim :: "string \<Rightarrow> string \<Rightarrow> string" where
  \<comment> \<open>\<open>strings.Trim\<close>: every leading and every trailing character that occurs in
      \<open>cutset\<close> is removed; \<open>cutset\<close> is a set of characters, not a suffix\<close>
  "Trim s cutset = TrimRight (TrimLeft s cutset) cutset"

text \<open>
  \<open>strings.Split s sep\<close> for a non-empty \<open>sep\<close>: the text is cut at every occurrence
  of \<open>sep\<close>, found from the left and not overlapping; a text without \<open>sep\<close> gives the
  one-element list \<open>[s]\<close>. Both separators of the loader (\<open>"."\<close> and \<open>";\n"\<close>) are
  non-empty; the empty separator of the library, which explodes the text into its code
  points, is not modelled: \<open>splitFrom\<close> then never cuts.
\<close>

function splitFrom :: "string \<Rightarrow> string \<Rightarrow> string \<Rightarrow> string list" where
  "splitFrom sep acc s =
     (if s = [] then [acc]
      else if sep \<noteq> [] \<and> HasPrefix s sep
        then acc # splitFrom sep [] (drop (length sep) s)
      else splitFrom sep (acc @ [hd s]) (tl s))"
  by pat_completeness auto
termination
  by (relation "measure (\<lambda>(sep, acc, s). length s)") auto

declare splitFrom.simps [simp del]

definition Split :: "string \<Rightarrow> string \<Rightarrow> string list" where
  "Split s sep = splitFrom sep [] s"

definition Join :: "string list \<Rightarrow> string \<Rightarrow> string" where
  \<comment> \<open>\<open>strings.Join\<close>, the inverse that characterises \<open>Split\<close>\<close>
  "Join xs sep = (case xs of [] \<Rightarrow> [] | y # ys \<Rightarrow> y @ concat (map (\<lambda>z. sep @ z) ys))"

definition Contains :: "string \<Rightarrow> string \<Rightarrow> bool" where
  \<comment> \<open>\<open>strings.Contains\<close>: \<open>sub\<close> occurs somewhere in \<open>s\<close>\<close>
  "Contains s sub \<longleftrightarrow> (\<exists>i \<le> length s. HasPrefix (drop i s) sub)"

definition stripSlashes :: "string \<Rightarrow> string" where
  "stripSlashes p = rev (dropWhile (\<lambda>c. c = CHR ''/'') (rev p))"

definition lastElem :: "string \<Rightarrow> string" where
  "lastElem p = rev (takeWhile (\<lambda>c. c \<noteq> CHR ''/'') (rev p))"

definition Base :: "string \<Rightarrow> string" where
  \<comment> \<open>\<open>filepath.Base\<close> on a system whose separator is \<open>/\<close> and that has no volume
      names: the empty path gives \<open>"."\<close>, trailing slashes are dropped, the last
      element is kept, and a path of slashes only gives \<open>"/"\<close>\<close>
  "Base p =
     (if p = [] then ''.''
      else let b = lastElem (stripSlashes p) in if b = [] then ''/'' else b)"

subsection \<open>The file catalog\<close>

record Files =
  databases :: "string list"
  schemas :: "string list"
  tables :: "string list"

definition dbSuffix :: string where "dbSuffix = ''-schema-create.sql''"
definition schemaSuffix :: string where "schemaSuffix = ''-schema.sql''"
definition tableSuffix :: string where "tableSuffix = ''.sql''"

datatype panic =
    WalkError string
  | ReadError string
  | ExecError nat string
  | IndexOutOfRange nat nat

text \<open>
  One call of the function that \<open>loadFiles\<close> hands to \<open>filepath.Walk\<close>. A visit is
  the triple the walk passes: the path, whether \<open>info.IsDir()\<close> holds, and whether the
  walk reports an error for this path. \<open>log.Panicf\<close> panics.
\<close>

type_synonym visit = "string \<times> bool \<times> bool"

definition walkFn :: "Files \<Rightarrow> visit \<Rightarrow> panic + Files" where
  "walkFn files v =
     (case v of (path, isDir, err) \<Rightarrow>
        if err then Inl (WalkError path)
        else if \<not> isDir then
          (if HasSuffix path dbSuffix
             then Inr (files\<lparr>databases := databases files @ [path]\<rparr>)
           else if HasSuffix path schemaSuffix
             then Inr (files\<lparr>schemas := schemas files @ [path]\<rparr>)
           else if HasSuffix path tableSuffix
             then Inr (files\<lparr>tables := tables files @ [path]\<rparr>)
           else Inr files)
        else Inr files)"

fun walk :: "Files \<Rightarrow> visit list \<Rightarrow> panic + Files" where
  "walk files [] = Inr files"
| "walk files (v # vs) =
     (case walkFn files v of Inl e \<Rightarrow> Inl e | Inr files' \<Rightarrow> walk files' vs)"

definition loadFiles :: "visit list \<Rightarrow> panic + Files" where
  \<comment> \<open>the argument is the sequence of visits \<open>filepath.Walk\<close> makes below \<open>dir\<close>\<close>
  "loadFiles vs = walk \<lparr>databases = [], schemas = [], tables = []\<rparr> vs"

definition regular :: "visit list \<Rightarrow> string list" where
  \<comment> \<open>the paths visited that are not directories, in walk order\<close>
  "regular vs = map fst (filter (\<lambda>v. \<not> fst (snd v)) vs)"

definition noWalkError :: "visit list \<Rightarrow> bool" where
  "noWalkError vs \<longleftrightarrow> list_all (\<lambda>v. \<not> snd (snd v)) vs"

subsection \<open>Collaborators: connection, file reader, assertion\<close>

text \<open>
  The server is a state of any type \<open>'s\<close>; the connection's \<open>Execute\<close> is a
  parameter \<open>exec\<close> of the model that, for a server state, a connection ID and a
  statement, gives the next server state, or \<open>None\<close> when the statement is rejected or
  the connection is lost. The world records every call of \<open>conn.Execute\<close> in order:
  the connection, the statement and, as instrumentation, the file being restored and
  its kind. The log holds the lines written with \<open>log.Info\<close>.
\<close>

datatype kind = DatabaseFile | SchemaFile | TableFile

datatype call = Call (ckind: kind) (cfile: string) (cconn: nat) (csql: string)

datatype logline =
    RestoringDatabase string
  | RestoringSchema string
  | RestoringTables string string nat
  | RestoringTablesDone string string nat

record 's world =
  server :: 's
  calls :: "call list"
  logs :: "logline list"

type_synonym 's exec = "'s \<Rightarrow> nat \<Rightarrow> string \<Rightarrow> 's option"

type_synonym ('s, 'a) result = "(panic \<times> 's world) + 'a"

text \<open>
  Modelled from the spec: \<open>Connection.Execute\<close> is not part of the source file. The
  spec gives its contract: \<open>execute(sqlText) \<rightarrow> error\<close> runs the statements against
  the server and returns an error on failure. The call is recorded whether it succeeds
  or not.
\<close>

definition Execute ::
  "'s exec \<Rightarrow> kind \<Rightarrow> string \<Rightarrow> nat \<Rightarrow> string \<Rightarrow> 's world \<Rightarrow> 's world \<times> panic option" where
  "Execute exec k f c q w =
     (let w' = w\<lparr>calls := calls w @ [Call k f c q]\<rparr>
      in case exec (server w) c q of
           None \<Rightarrow> (w', Some (ExecError c q))
         | Some s' \<Rightarrow> (w'\<lparr>server := s'\<rparr>, None))"

text \<open>
  Modelled from the spec: \<open>ReadFile\<close> is not part of the source file. It returns the
  file's full text, or an error for an unreadable file. The file system \<open>fs\<close> maps a
  path to its text and is not written during a restore.
\<close>

definition ReadFile :: "(string \<Rightarrow> string option) \<Rightarrow> string \<Rightarrow> string \<times> panic option" where
  "ReadFile fs path =
     (case fs path of None \<Rightarrow> ([], Some (ReadError path)) | Some data \<Rightarrow> (data, None))"

text \<open>
  Modelled from the spec: \<open>AssertNil\<close> is not part of the source file. By the spec a
  read or execute failure is fatal and aborts the run: \<open>AssertNil err\<close> panics when
  \<open>err\<close> is not nil, and otherwise the code after it runs (the last argument).
\<close>

definition AssertNil :: "panic option \<Rightarrow> 's world \<Rightarrow> ('s, 'a) result \<Rightarrow> ('s, 'a) result" where
  "AssertNil err w rest = (case err of Some e \<Rightarrow> Inl (e, w) | None \<Rightarrow> rest)"

definition at :: "'b list \<Rightarrow> nat \<Rightarrow> 's world \<Rightarrow> ('b \<Rightarrow> ('s, 'a) result) \<Rightarrow> ('s, 'a) result" where
  \<comment> \<open>\<open>xs[i]\<close>: an index out of range panics\<close>
  "at xs i w rest =
     (if i < length xs then rest (xs ! i) else Inl (IndexOutOfRange i (length xs), w))"

definition useStmt :: "string \<Rightarrow> string" where
  \<comment> \<open>\<open>fmt.Sprintf("use `%s`", db)\<close>\<close>
  "useStmt db = ''use `'' @ db @ ''`''"

definition sep :: string where
  \<comment> \<open>the separator \<open>";\n"\<close>\<close>
  "sep = [CHR '';'', CHR 0x0A]"

subsection \<open>The schema restorer\<close>

fun restoreDatabaseSchema ::
  "'s exec \<Rightarrow> (string \<Rightarrow> string option) \<Rightarrow> nat \<Rightarrow> string list \<Rightarrow> 's world
     \<Rightarrow> ('s, 's world) result" where
  "restoreDatabaseSchema exec fs c [] w = Inr w"
| "restoreDatabaseSchema exec fs c (db # dbs) w =
     (let base = Base db;
          name = TrimSuffix base dbSuffix;
          (data, err) = ReadFile fs db
      in AssertNil err w
          (let sql = data;
               (w1, err) = Execute exec DatabaseFile db c sql w
           in AssertNil err w1
               (restoreDatabaseSchema exec fs c dbs
                  (w1\<lparr>logs := logs w1 @ [RestoringDatabase name]\<rparr>))))"

text \<open>
  The statement loop, which \<open>restoreTableSchema\<close> and \<open>restoreTable\<close> both contain
  with the same text: a chunk is executed unless it starts with \<open>/*\<close> or is empty.
\<close>

fun execQuerys ::
  "'s exec \<Rightarrow> kind \<Rightarrow> string \<Rightarrow> nat \<Rightarrow> string list \<Rightarrow> 's world \<Rightarrow> ('s, 's world) result" where
  "execQuerys exec k f c [] w = Inr w"
| "execQuerys exec k f c (query # querys) w =
     (if \<not> HasPrefix query ''/*'' \<and> query \<noteq> [] then
        (let (w1, err) = Execute exec k f c query w
         in AssertNil err w1 (execQuerys exec k f c querys w1))
      else execQuerys exec k f c querys w)"

fun restoreTableSchema ::
  "'s exec \<Rightarrow> (string \<Rightarrow> string option) \<Rightarrow> nat \<Rightarrow> string list \<Rightarrow> 's world
     \<Rightarrow> ('s, 's world) result" where
  "restoreTableSchema exec fs c [] w = Inr w"
| "restoreTableSchema exec fs c (schema # rest) w =
     (let base = Base schema;
          name = Trim base schemaSuffix
      in at (Split name ''.'') 0 w (\<lambda>db.
          let sql = useStmt db;
              (w1, err) = Execute exec SchemaFile schema c sql w
          in AssertNil err w1
              (let (data, err) = ReadFile fs schema
               in AssertNil err w1
                   (let sql = data;
                        querys = Split sql sep
                    in case execQuerys exec SchemaFile schema c querys w1 of
                         Inl p \<Rightarrow> Inl p
                       | Inr w2 \<Rightarrow>
                           restoreTableSchema exec fs c rest
                             (w2\<lparr>logs := logs w2 @ [RestoringSchema name]\<rparr>)))))"

subsection \<open>The row-data restorer\<close>

definition restoreTable ::
  "'s exec \<Rightarrow> (string \<Rightarrow> string option) \<Rightarrow> nat \<Rightarrow> string \<Rightarrow> 's world
     \<Rightarrow> ('s, nat \<times> 's world) result" where
  "restoreTable exec fs c table w =
     (let part = ''0'';
          base = Base table;
          name = Trim base tableSuffix;
          splits = Split name ''.''
      in at splits 0 w (\<lambda>db.
         at splits 1 w (\<lambda>tbl.
          let part = (if length splits > 2 then splits ! 2 else part);
              w0 = w\<lparr>logs := logs w @ [RestoringTables tbl part c]\<rparr>;
              sql = useStmt db;
              (w1, err) = Execute exec TableFile table c sql w0
          in AssertNil err w1
              (let (data, err) = ReadFile fs table
               in AssertNil err w1
                   (let sql = data;
                        querys = Split sql sep;
                        bytes = length sql
                    in case execQuerys exec TableFile table c querys w1 of
                         Inl p \<Rightarrow> Inl p
                       | Inr w2 \<Rightarrow>
                           Inr (bytes,
                                w2\<lparr>logs := logs w2 @ [RestoringTablesDone tbl part c]\<rparr>))))))"

subsection \<open>The shuffle\<close>

text \<open>
  \<open>for i := range files.tables { j := rand.Intn(i + 1); swap }\<close>. The random source is
  the function \<open>rnd\<close>: \<open>rnd i\<close> is the number \<open>rand.Intn(i + 1)\<close> returns in the
  iteration for index \<open>i\<close>. The library promises \<open>0 \<le> rnd i < i + 1\<close>; a slice
  index out of range panics.
\<close>

fun shuffleFrom :: "(nat \<Rightarrow> nat) \<Rightarrow> nat list \<Rightarrow> 'a list \<Rightarrow> panic + 'a list" where
  "shuffleFrom rnd [] xs = Inr xs"
| "shuffleFrom rnd (i # is) xs =
     (let j = rnd i
      in if \<not> j < length xs then Inl (IndexOutOfRange j (length xs))
         else if \<not> i < length xs then Inl (IndexOutOfRange i (length xs))
         else shuffleFrom rnd is (xs[i := xs ! j, j := xs ! i]))"

definition shuffle :: "(nat \<Rightarrow> nat) \<Rightarrow> 'a list \<Rightarrow> panic + 'a list" where
  "shuffle rnd xs = shuffleFrom rnd [0..<length xs] xs"

section \<open>Specification vocabulary\<close>

text \<open>
  The definitions of this section are not code of the loader. They say what the
  properties below talk about: which chunks of a text are statements, what calls a
  file gives rise to when nothing fails, and what it means that a sequence of calls
  was made and accepted, or was cut short by a failure.
\<close>

definition isStatement :: "string \<Rightarrow> bool" where
  \<comment> \<open>a chunk that is not empty and does not begin with the comment marker\<close>
  "isStatement q \<longleftrightarrow> q \<noteq> [] \<and> \<not> HasPrefix q ''/*''"

definition statements :: "string \<Rightarrow> string list" where
  \<comment> \<open>the statements of a text: its chunks between separators that are statements\<close>
  "statements data = filter isStatement (Split data sep)"

fun replay :: "'s exec \<Rightarrow> call list \<Rightarrow> 's \<Rightarrow> 's option" where
  \<comment> \<open>the server after it accepted every call of the list in turn, if it did\<close>
  "replay exec [] s = Some s"
| "replay exec (x # xs) s =
     (case exec s (cconn x) (csql x) of None \<Rightarrow> None | Some s' \<Rightarrow> replay exec xs s')"

definition ran :: "'s exec \<Rightarrow> 's world \<Rightarrow> call list \<Rightarrow> 's world \<Rightarrow> bool" where
  \<comment> \<open>from \<open>w\<close> to \<open>w'\<close> exactly the calls \<open>xs\<close> were made, and each was accepted\<close>
  "ran exec w xs w' \<longleftrightarrow>
     calls w' = calls w @ xs \<and> replay exec xs (server w) = Some (server w')"

definition failed :: "'s exec \<Rightarrow> 's world \<Rightarrow> call list \<Rightarrow> panic \<Rightarrow> 's world \<Rightarrow> bool" where
  \<comment> \<open>from \<open>w\<close> to \<open>w'\<close> exactly the calls \<open>xs\<close> were made; for an execution error
      the last of them is the rejected statement and all before it were accepted; for
      any other panic all of them were accepted\<close>
  "failed exec w xs e w' \<longleftrightarrow>
     (case e of
        ExecError c q \<Rightarrow>
          xs \<noteq> [] \<and> calls w' = calls w @ xs \<and>
          replay exec (butlast xs) (server w) = Some (server w') \<and>
          cconn (last xs) = c \<and> csql (last xs) = q \<and> exec (server w') c q = None
      | _ \<Rightarrow> ran exec w xs w')"

definition fileCalls :: "kind \<Rightarrow> nat \<Rightarrow> string \<Rightarrow> string \<Rightarrow> string \<Rightarrow> call list" where
  \<comment> \<open>the database selection, then the statements of the text, on one connection\<close>
  "fileCalls k c f db data = Call k f c (useStmt db) # map (Call k f c) (statements data)"

definition dbName :: "string \<Rightarrow> string" where
  \<comment> \<open>\<open>name\<close> in \<open>restoreDatabaseSchema\<close>\<close>
  "dbName db = TrimSuffix (Base db) dbSuffix"

definition schemaDb :: "string \<Rightarrow> string" where
  \<comment> \<open>\<open>db\<close> in \<open>restoreTableSchema\<close>\<close>
  "schemaDb schema = Split (Trim (Base schema) schemaSuffix) ''.'' ! 0"

definition tableSplits :: "string \<Rightarrow> string list" where
  \<comment> \<open>\<open>splits\<close> in \<open>restoreTable\<close>\<close>
  "tableSplits table = Split (Trim (Base table) tableSuffix) ''.''"

definition dbCalls :: "(string \<Rightarrow> string option) \<Rightarrow> nat \<Rightarrow> string list \<Rightarrow> call list" where
  \<comment> \<open>one call per database-schema file, with the file's full text\<close>
  "dbCalls fs c dbs = map (\<lambda>db. Call DatabaseFile db c (fst (ReadFile fs db))) dbs"

definition schemaCalls :: "(string \<Rightarrow> string option) \<Rightarrow> nat \<Rightarrow> string list \<Rightarrow> call list" where
  "schemaCalls fs c scs =
     concat (map (\<lambda>sc. fileCalls SchemaFile c sc (schemaDb sc) (fst (ReadFile fs sc))) scs)"

definition tableCalls :: "(string \<Rightarrow> string option) \<Rightarrow> nat \<Rightarrow> string \<Rightarrow> call list" where
  "tableCalls fs c table =
     fileCalls TableFile c table (tableSplits table ! 0) (fst (ReadFile fs table))"

definition useAndReplay ::
  "'s exec \<Rightarrow> (string \<Rightarrow> string option) \<Rightarrow> kind \<Rightarrow> nat \<Rightarrow> string \<Rightarrow> string \<Rightarrow> 's world
     \<Rightarrow> ('s, string \<times> 's world) result" where
  \<comment> \<open>the part \<open>restoreTableSchema\<close> and \<open>restoreTable\<close> have in common, factored
      out for the proofs: select the database, read the file, run the statement loop\<close>
  "useAndReplay exec fs k c f db w =
     (let (w1, err) = Execute exec k f c (useStmt db) w
      in AssertNil err w1
          (let (data, err) = ReadFile fs f
           in AssertNil err w1
               (case execQuerys exec k f c (Split data sep) w1 of
                  Inl p \<Rightarrow> Inl p
                | Inr w2 \<Rightarrow> Inr (data, w2))))"

section \<open>The orchestrator\<close>

subsection \<open>A unit of row-data work, step by step\<close>

text \<open>
  The workers of phase 4 run \<open>restoreTable\<close> concurrently, so their calls of
  \<open>Execute\<close> interleave. For this, \<open>restoreTable\<close> is read as the sequence of effects
  it has on the world: log lines, calls of \<open>Execute\<close>, and the panic it ends with when
  the file name has fewer than two segments or the file cannot be read. The sequence does
  not depend on the server: \<open>restoreTable\<close> looks at the result of \<open>Execute\<close> only
  to panic. Lemma \<open>restoreTable_performAll\<close> below proves that performing the effects
  one after the other is \<open>restoreTable\<close>.
\<close>

datatype effect = Exec call | Log logline | Crash panic

definition tableEffects :: "(string \<Rightarrow> string option) \<Rightarrow> nat \<Rightarrow> string \<Rightarrow> effect list" where
  "tableEffects fs c table =
     (let splits = tableSplits table
      in if length splits < 2 then [Crash (IndexOutOfRange 1 (length splits))]
         else
           let tbl = splits ! 1;
               part = (if length splits > 2 then splits ! 2 else ''0'')
           in Log (RestoringTables tbl part c) #
              Exec (Call TableFile table c (useStmt (splits ! 0))) #
              (case fs table of
                 None \<Rightarrow> [Crash (ReadError table)]
               | Some data \<Rightarrow>
                   map (\<lambda>q. Exec (Call TableFile table c q)) (statements data) @
                   [Log (RestoringTablesDone tbl part c)]))"

fun perform :: "'s exec \<Rightarrow> effect \<Rightarrow> 's world \<Rightarrow> ('s, 's world) result" where
  "perform exec (Exec x) w =
     (let (w1, err) = Execute exec (ckind x) (cfile x) (cconn x) (csql x) w
      in AssertNil err w1 (Inr w1))"
| "perform exec (Log l) w = Inr (w\<lparr>logs := logs w @ [l]\<rparr>)"
| "perform exec (Crash e) w = Inl (e, w)"

fun performAll :: "'s exec \<Rightarrow> effect list \<Rightarrow> 's world \<Rightarrow> ('s, 's world) result" where
  "performAll exec [] w = Inr w"
| "performAll exec (x # xs) w =
     (case perform exec x w of Inl p \<Rightarrow> Inl p | Inr w1 \<Rightarrow> performAll exec xs w1)"

definition fileBytes :: "(string \<Rightarrow> string option) \<Rightarrow> string \<Rightarrow> nat" where
  \<comment> \<open>\<open>len(sql)\<close>, the number \<open>restoreTable\<close> returns for the file\<close>
  "fileBytes fs table = length (fst (ReadFile fs table))"

subsection \<open>Phases 1 and 2\<close>

definition schemaPhases ::
  "'s exec \<Rightarrow> (string \<Rightarrow> string option) \<Rightarrow> nat \<Rightarrow> nat \<Rightarrow> Files \<Rightarrow> 's world
     \<Rightarrow> ('s, 's world) result" where
  \<comment> \<open>\<open>c1\<close> and \<open>c2\<close> are the connections the two calls of \<open>pool.Get\<close> return\<close>
  "schemaPhases exec fs c1 c2 files w =
     (case restoreDatabaseSchema exec fs c1 (databases files) w of
        Inl p \<Rightarrow> Inl p
      | Inr w1 \<Rightarrow> restoreTableSchema exec fs c2 (schemas files) w1)"

subsection \<open>Phase 4: dispatch and the concurrent workers\<close>

text \<open>
  Modelled from the spec: the connection pool is not part of the source file. By the
  spec \<open>acquire\<close> hands out a free connection and blocks while there is none, and
  \<open>release\<close> returns the connection to the free set. The pool is the list of the IDs
  of its free connections; which free connection \<open>Get\<close> returns is left open.

  A configuration of phase 4 holds the world, the shared counter \<open>bytes\<close> (a
  \<open>uint64\<close>), the pool, the tables the driver loop has not reached yet, the workers
  that are running (connection, table, effects still to perform), and the panic that
  was raised in a worker, if any. A step is one of: the driver takes a connection and
  starts the worker for the next table; a worker performs its next effect; an effect
  of a worker panics; a worker whose \<open>restoreTable\<close> has returned adds the returned
  number to the counter. In \<open>finish\<close>, \<open>r\<close> is the number \<open>restoreTable\<close>
  returns for the worker's table and connection: it returns the same number on every
  server on which it returns (lemma \<open>restoreTable_value\<close>), and a worker that has
  performed all its effects can take the step (lemma \<open>finish_enabled\<close>). The
  deferred function of the worker runs in both cases, after the return and after the
  panic: the worker is gone and its connection is back in the pool. Each call of
  \<open>Execute\<close> is one step: the server takes the statements of the connections one at
  a time, in any order.

  A panic ends the process, but not at once: until the process has exited, the driver
  and the other workers go on. So every step remains possible after a panic, and the
  configurations that can be reached after it are the ones in which the process may
  exit.
\<close>

datatype worker = Worker (wconn: nat) (wtable: string) (todo: "effect list")

record 's conf =
  world :: "'s world"
  counter :: "64 word"
  pool :: "nat list"
  queue :: "string list"
  running :: "worker list"
  crashed :: "panic option"

inductive step :: "'s exec \<Rightarrow> (string \<Rightarrow> string option) \<Rightarrow> 's conf \<Rightarrow> 's conf \<Rightarrow> bool"
  for exec :: "'s exec" and fs :: "string \<Rightarrow> string option" where
  dispatch:
    "queue cf = t # ts \<Longrightarrow> c \<in> set (pool cf) \<Longrightarrow>
     step exec fs cf
       (cf\<lparr>pool := remove1 c (pool cf), queue := ts,
           running := running cf @ [Worker c t (tableEffects fs c t)]\<rparr>)"
| work:
    "i < length (running cf) \<Longrightarrow>
     running cf ! i = Worker c t (x # xs) \<Longrightarrow> perform exec x (world cf) = Inr w1 \<Longrightarrow>
     step exec fs cf (cf\<lparr>world := w1, running := (running cf)[i := Worker c t xs]\<rparr>)"
| crash:
    "i < length (running cf) \<Longrightarrow>
     running cf ! i = Worker c t (x # xs) \<Longrightarrow> perform exec x (world cf) = Inl (e, w1) \<Longrightarrow>
     step exec fs cf
       (cf\<lparr>world := w1, pool := pool cf @ [c],
           running := take i (running cf) @ drop (Suc i) (running cf), crashed := Some e\<rparr>)"
| finish:
    "i < length (running cf) \<Longrightarrow>
     running cf ! i = Worker c t [] \<Longrightarrow> restoreTable (exec' :: 's exec) fs c t w = Inr (r, w') \<Longrightarrow>
     step exec fs cf
       (cf\<lparr>counter := counter cf + of_nat r, pool := pool cf @ [c],
           running := take i (running cf) @ drop (Suc i) (running cf)\<rparr>)"

definition dispatching :: "'s world \<Rightarrow> string list \<Rightarrow> nat list \<Rightarrow> 's conf" where
  \<comment> \<open>the configuration in which the dispatch loop starts\<close>
  "dispatching w ts free =
     \<lparr>world = w, counter = 0, pool = free, queue = ts, running = [], crashed = None\<rparr>"

definition halted :: "panic \<Rightarrow> 's world \<Rightarrow> nat list \<Rightarrow> 's conf" where
  \<comment> \<open>the process ended by a panic before phase 4\<close>
  "halted e w free =
     \<lparr>world = w, counter = 0, pool = free, queue = [], running = [], crashed = Some e\<rparr>"


subsection \<open>The run\<close>

text \<open>
  \<open>Loader\<close>, up to the return of \<open>wg.Wait()\<close>: the configurations a run is in from
  the end of phase 3 on, or the configuration in which a panic of phases 1 to 3 ended
  it. \<open>free\<close> are the connections of the pool \<open>NewPool\<close> returned, \<open>vs\<close> the visits
  of the directory walk, \<open>rnd\<close> the random numbers.
\<close>

inductive Loader ::
  "'s exec \<Rightarrow> (string \<Rightarrow> string option) \<Rightarrow> (nat \<Rightarrow> nat) \<Rightarrow> visit list \<Rightarrow> nat list \<Rightarrow> 's world
     \<Rightarrow> 's conf \<Rightarrow> bool"
  for exec :: "'s exec" and fs :: "string \<Rightarrow> string option" and rnd :: "nat \<Rightarrow> nat"
    and vs :: "visit list" and free :: "nat list" and w0 :: "'s world" where
  walkPanic:
    "loadFiles vs = Inl e \<Longrightarrow> Loader exec fs rnd vs free w0 (halted e w0 free)"
| schemaPanic:
    "loadFiles vs = Inr files \<Longrightarrow> c1 \<in> set free \<Longrightarrow> c2 \<in> set free \<Longrightarrow>
     schemaPhases exec fs c1 c2 files w0 = Inl (e, w) \<Longrightarrow>
     Loader exec fs rnd vs free w0 (halted e w free)"
| shufflePanic:
    "loadFiles vs = Inr files \<Longrightarrow> c1 \<in> set free \<Longrightarrow> c2 \<in> set free \<Longrightarrow>
     schemaPhases exec fs c1 c2 files w0 = Inr w \<Longrightarrow>
     shuffle rnd (tables files) = Inl e \<Longrightarrow>
     Loader exec fs rnd vs free w0 (halted e w free)"
| dataPhase:
    "loadFiles vs = Inr files \<Longrightarrow> c1 \<in> set free \<Longrightarrow> c2 \<in> set free \<Longrightarrow>
     schemaPhases exec fs c1 c2 files w0 = Inr w \<Longrightarrow>
     shuffle rnd (tables files) = Inr ts \<Longrightarrow>
     (step exec fs)\<^sup>*\<^sup>* (dispatching w ts free) cf \<Longrightarrow>
     Loader exec fs rnd vs free w0 cf"

subsection \<open>The progress reporter\<close>

text \<open>
  \<open>time.NewTicker\<close> gives a ticker with a channel \<open>C\<close> of capacity one. While the
  ticker runs, the runtime sends a tick on \<open>C\<close> at each interval and drops the tick when
  the channel is full. \<open>Stop\<close> turns the ticker off: no more ticks are sent; by the
  library's documentation it does not close the channel. The loader has no other
  operation on the ticker, and \<open>C\<close> is a receive-only channel that the loader cannot
  close. The reporter is the goroutine \<open>for range tick.C { ... }\<close>: it waits on the
  channel, logs one line per tick received, and leaves the loop only when the channel is
  closed and empty.
\<close>

datatype pc = Waiting | Exited

record reporter =
  stopped :: bool
  closed :: bool
  buffered :: bool
  lines :: nat
  at_pc :: pc

inductive rstep :: "reporter \<Rightarrow> reporter \<Rightarrow> bool" where
  tick: "\<not> stopped r \<Longrightarrow> rstep r (r\<lparr>buffered := True\<rparr>)"
| receive:
    "at_pc r = Waiting \<Longrightarrow> buffered r \<Longrightarrow>
     rstep r (r\<lparr>buffered := False, lines := Suc (lines r)\<rparr>)"
| leave:
    "at_pc r = Waiting \<Longrightarrow> \<not> buffered r \<Longrightarrow> closed r \<Longrightarrow> rstep r (r\<lparr>at_pc := Exited\<rparr>)"
| stop: "rstep r (r\<lparr>stopped := True\<rparr>)"

definition started :: reporter where
  \<comment> \<open>after \<open>time.NewTicker\<close> and \<open>go func() { for range tick.C ... }()\<close>\<close>
  "started = \<lparr>stopped = False, closed = False, buffered = False, lines = 0, at_pc = Waiting\<rparr>"

definition blocked :: "reporter \<Rightarrow> bool" where
  \<comment> \<open>the goroutine waits on the channel and neither of its own steps is possible\<close>
  "blocked r \<longleftrightarrow> at_pc r = Waiting \<and> \<not> buffered r \<and> \<not> closed r"

subsection \<open>Invariants of phase 4\<close>


definition onlyTableCalls :: "'s conf \<Rightarrow> bool" where
  \<comment> \<open>the workers have only statements of row-data files left to execute\<close>
  "onlyTableCalls cf \<longleftrightarrow>
     (\<forall>wk \<in> set (running cf). \<forall>x. Exec x \<in> set (todo wk) \<longrightarrow> ckind x = TableFile)"

definition wellStarted :: "(string \<Rightarrow> string option) \<Rightarrow> 's conf \<Rightarrow> bool" where
  \<comment> \<open>every worker is somewhere in the effects of its table, with no panic behind it\<close>
  "wellStarted fs cf \<longleftrightarrow>
     (\<forall>wk \<in> set (running cf). \<exists>pre.
        tableEffects fs (wconn wk) (wtable wk) = pre @ todo wk \<and> (\<forall>e. Crash e \<notin> set pre))"


section \<open>A small dump\<close>

text \<open>
  A dump directory with one database, one table and one data file, a server that counts
  the statements it accepted and rejects the statement \<open>BAD\<close>, and the worlds and
  the final configuration of the run on it. \<open>exBadFs\<close> is a file system in which
  every file holds three statements, the second of which the server rejects.
\<close>

definition exVisits :: "visit list" where
  "exVisits =
     [(''dump'', True, False), (''dump/db1-schema-create.sql'', False, False),
      (''dump/db1.t1-schema.sql'', False, False), (''dump/db1.t1.sql'', False, False),
      (''dump/metadata'', False, False)]"

definition exFs :: "string \<Rightarrow> string option" where
  "exFs p =
     (if p = ''dump/db1-schema-create.sql'' then Some ''CREATE DATABASE `db1`''
      else if p = ''dump/db1.t1-schema.sql''
        then Some (''/*!40101 SET NAMES binary*/;'' @ [CHR 0x0A] @
                   ''CREATE TABLE `t1` (`a` int)'' @ [CHR 0x3B, CHR 0x0A])
      else if p = ''dump/db1.t1.sql''
        then Some (''INSERT INTO `t1` VALUES (1)'' @ [CHR 0x3B, CHR 0x0A] @
                   ''INSERT INTO `t1` VALUES (2)'' @ [CHR 0x3B, CHR 0x0A])
      else None)"

definition exExec :: "nat exec" where
  "exExec s c q = (if q = ''BAD'' then None else Some (Suc s))"

definition exWorld0 :: "nat world" where
  "exWorld0 = \<lparr>server = 0, calls = [], logs = []\<rparr>"

definition exWorld2 :: "nat world" where
  "exWorld2 =
     \<lparr>server = 3,
      calls = [Call DatabaseFile ''dump/db1-schema-create.sql'' 0 ''CREATE DATABASE `db1`'',
               Call SchemaFile ''dump/db1.t1-schema.sql'' 0 ''use `db1`'',
               Call SchemaFile ''dump/db1.t1-schema.sql'' 0 ''CREATE TABLE `t1` (`a` int)''],
      logs = [RestoringDatabase ''db1'', RestoringSchema ''db1.t1'']\<rparr>"

definition exWorld4 :: "nat world" where
  "exWorld4 =
     \<lparr>server = 6,
      calls = [Call DatabaseFile ''dump/db1-schema-create.sql'' 0 ''CREATE DATABASE `db1`'',
               Call SchemaFile ''dump/db1.t1-schema.sql'' 0 ''use `db1`'',
               Call SchemaFile ''dump/db1.t1-schema.sql'' 0 ''CREATE TABLE `t1` (`a` int)'',
               Call TableFile ''dump/db1.t1.sql'' 0 ''use `db1`'',
               Call TableFile ''dump/db1.t1.sql'' 0 ''INSERT INTO `t1` VALUES (1)'',
               Call TableFile ''dump/db1.t1.sql'' 0 ''INSERT INTO `t1` VALUES (2)''],
      logs = [RestoringDatabase ''db1'', RestoringSchema ''db1.t1'',
              RestoringTables ''t1'' ''0'' 0, RestoringTablesDone ''t1'' ''0'' 0]\<rparr>"

definition exFiles :: Files where
  "exFiles = \<lparr>databases = [''dump/db1-schema-create.sql''],
              schemas = [''dump/db1.t1-schema.sql''], tables = [''dump/db1.t1.sql'']\<rparr>"

definition exFinal :: "nat conf" where
  "exFinal = \<lparr>world = exWorld4, counter = 58, pool = [0], queue = [], running = [],
              crashed = None\<rparr>"

definition exBadFs :: "string \<Rightarrow> string option" where
  "exBadFs p = Some (''INSERT 1'' @ [CHR 0x3B, CHR 0x0A] @ ''BAD'' @ [CHR 0x3B, CHR 0x0A] @
                     ''INSERT 3'' @ [CHR 0x3B, CHR 0x0A])"


section \<open>A dump of more than \<open>2 ^ 64\<close> bytes\<close>








section \<open>Properties\<close>

subsection \<open>Library functions\<close>

lemma HasSuffix_iff_suffix: "HasSuffix s suf \<longleftrightarrow> suffix suf s"
proof
  assume "HasSuffix s suf"
  then have "drop (length s - length suf) s = suf"
    by (simp add: HasSuffix_def)
  then have "s = take (length s - length suf) s @ suf"
    by (metis append_take_drop_id)
  then show "suffix suf s"
    by (metis suffixI)
next
  assume "suffix suf s"
  then obtain p where "s = p @ suf"
    by (auto simp: suffix_def)
  then show "HasSuffix s suf"
    by (simp add: HasSuffix_def)
qed

lemma HasPrefix_iff_prefix: "HasPrefix s pre \<longleftrightarrow> prefix pre s"
proof
  assume "HasPrefix s pre"
  then have "take (length pre) s = pre"
    by (simp add: HasPrefix_def)
  then show "prefix pre s"
    by (metis take_is_prefix)
next
  assume "prefix pre s"
  then obtain r where "s = pre @ r"
    by (auto simp: prefix_def)
  then show "HasPrefix s pre"
    by (simp add: HasPrefix_def)
qed

lemma TrimSuffix_append [simp]: "TrimSuffix (n @ suf) suf = n"
  by (simp add: TrimSuffix_def HasSuffix_def)

lemma splitFrom_not_Nil: "splitFrom sp acc s \<noteq> []"
  by (induction sp acc s rule: splitFrom.induct) (subst splitFrom.simps, simp)

lemma Join_Cons: "Join (x # xs) sp = x @ concat (map (\<lambda>z. sp @ z) xs)"
  by (simp add: Join_def)

lemma Join_Cons_Cons: "xs \<noteq> [] \<Longrightarrow> Join (x # xs) sp = x @ sp @ Join xs sp"
  by (cases xs) (simp_all add: Join_def)

lemma Join_splitFrom: "Join (splitFrom sp acc s) sp = acc @ s"
proof (induction sp acc s rule: splitFrom.induct)
  case (1 sp acc s)
  show ?case
  proof (cases "s = []")
    case True
    then show ?thesis
      by (subst splitFrom.simps) (simp add: Join_def)
  next
    case False
    show ?thesis
    proof (cases "sp \<noteq> [] \<and> HasPrefix s sp")
      case True
      then have s: "s = sp @ drop (length sp) s"
        by (metis HasPrefix_def append_take_drop_id)
      have "Join (splitFrom sp acc s) sp = acc @ sp @ Join (splitFrom sp [] (drop (length sp) s)) sp"
        using False True
        by (subst splitFrom.simps) (simp add: Join_Cons_Cons splitFrom_not_Nil)
      also have "\<dots> = acc @ sp @ drop (length sp) s"
        using "1.IH"(1) [OF False True] by simp
      finally show ?thesis
        using s by simp
    next
      case nocut: False
      have "Join (splitFrom sp acc s) sp = Join (splitFrom sp (acc @ [hd s]) (tl s)) sp"
        using False nocut by (subst splitFrom.simps) auto
      also have "\<dots> = (acc @ [hd s]) @ tl s"
        using "1.IH"(2) [OF False nocut] .
      finally show ?thesis
        using False by simp
    qed
  qed
qed

lemma Join_Split: "Join (Split s sp) sp = s"
  by (simp add: Split_def Join_splitFrom)

lemma Contains_occurs:
  assumes "sp \<noteq> []" "Contains acc sp"
  shows "\<exists>i < length acc. HasPrefix (drop i (acc @ s)) sp"
proof -
  from assms(2) obtain i where i: "i \<le> length acc" "HasPrefix (drop i acc) sp"
    by (auto simp: Contains_def)
  from i(2) assms(1) have "i \<noteq> length acc"
    by (auto simp: HasPrefix_def)
  with i(1) have "i < length acc"
    by simp
  moreover from i(2) have "prefix sp (drop i acc)"
    by (simp add: HasPrefix_iff_prefix)
  then have "prefix sp (drop i acc @ s)"
    by (rule prefix_prefix)
  then have "HasPrefix (drop i (acc @ s)) sp"
    using i(1) by (simp add: HasPrefix_iff_prefix)
  ultimately show ?thesis by blast
qed

lemma splitFrom_no_sep:
  assumes "sp \<noteq> []" "\<forall>i < length acc. \<not> HasPrefix (drop i (acc @ s)) sp"
  shows "\<forall>x \<in> set (splitFrom sp acc s). \<not> Contains x sp"
  using assms
proof (induction sp acc s rule: splitFrom.induct)
  case (1 sp acc s)
  have acc: "\<not> Contains acc sp"
    using Contains_occurs [OF "1.prems"(1), of acc s] "1.prems"(2) by blast
  show ?case
  proof (cases "s = []")
    case True
    then show ?thesis
      using acc by (subst splitFrom.simps) simp
  next
    case False
    show ?thesis
    proof (cases "sp \<noteq> [] \<and> HasPrefix s sp")
      case True
      have "\<forall>x \<in> set (splitFrom sp [] (drop (length sp) s)). \<not> Contains x sp"
        using "1.IH"(1) [OF False True "1.prems"(1)] by simp
      then show ?thesis
        using acc False True by (subst splitFrom.simps) simp
    next
      case nocut: False
      have inv: "\<forall>i < length (acc @ [hd s]). \<not> HasPrefix (drop i ((acc @ [hd s]) @ tl s)) sp"
      proof (intro allI impI)
        fix i assume "i < length (acc @ [hd s])"
        then consider "i < length acc" | "i = length acc" by force
        then show "\<not> HasPrefix (drop i ((acc @ [hd s]) @ tl s)) sp"
        proof cases
          case 1
          then show ?thesis using "1.prems"(2) False by simp
        next
          case 2
          then show ?thesis using nocut "1.prems"(1) False by simp
        qed
      qed
      have "\<forall>x \<in> set (splitFrom sp (acc @ [hd s]) (tl s)). \<not> Contains x sp"
        using "1.IH"(2) [OF False nocut "1.prems"(1) inv] .
      then show ?thesis
        using False nocut by (subst splitFrom.simps) auto
    qed
  qed
qed

lemma Split_no_sep: "sp \<noteq> [] \<Longrightarrow> x \<in> set (Split s sp) \<Longrightarrow> \<not> Contains x sp"
  using splitFrom_no_sep [of sp "[]" s] by (simp add: Split_def)

lemma Split_not_Nil: "Split s sp \<noteq> []"
  by (simp add: Split_def splitFrom_not_Nil)

subsection \<open>Classification\<close>

lemma walk_lists:
  assumes "noWalkError vs"
  shows "walk files vs = Inr
    \<lparr>databases = databases files @ filter (\<lambda>p. HasSuffix p dbSuffix) (regular vs),
     schemas = schemas files @
       filter (\<lambda>p. \<not> HasSuffix p dbSuffix \<and> HasSuffix p schemaSuffix) (regular vs),
     tables = tables files @
       filter (\<lambda>p. \<not> HasSuffix p dbSuffix \<and> \<not> HasSuffix p schemaSuffix \<and>
                  HasSuffix p tableSuffix) (regular vs)\<rparr>"
  using assms
proof (induction vs arbitrary: files)
  case Nil
  then show ?case by (simp add: regular_def)
next
  case (Cons v vs)
  obtain path isDir err where v: "v = (path, isDir, err)"
    by (cases v) auto
  from Cons.prems have ne: "\<not> err" and rest: "noWalkError vs"
    by (simp_all add: noWalkError_def v)
  show ?case
    using Cons.IH [OF rest] ne
    by (simp add: v walkFn_def regular_def)
qed

text \<open>
  C1. Every visited file that is not a directory is classified by the first suffix that
  matches, in the order database-schema, table-schema, data: the three sequences are
  the visited files with the respective first match, in walk order, so a file ending in
  \<open>-schema-create.sql\<close> is in \<open>databases\<close> only, one that fails this and ends in
  \<open>-schema.sql\<close> is in \<open>schemas\<close> only, one that fails both and ends in \<open>.sql\<close> is
  in \<open>tables\<close> only, and every other file is in none.
\<close>

theorem loadFiles_classification:
  assumes "noWalkError vs"
  shows "\<exists>files. loadFiles vs = Inr files \<and>
    databases files = filter (\<lambda>p. HasSuffix p ''-schema-create.sql'') (regular vs) \<and>
    schemas files = filter (\<lambda>p. \<not> HasSuffix p ''-schema-create.sql'' \<and>
                               HasSuffix p ''-schema.sql'') (regular vs) \<and>
    tables files = filter (\<lambda>p. \<not> HasSuffix p ''-schema-create.sql'' \<and>
                              \<not> HasSuffix p ''-schema.sql'' \<and>
                              HasSuffix p ''.sql'') (regular vs) \<and>
    set (databases files) \<inter> set (schemas files) = {} \<and>
    set (databases files) \<inter> set (tables files) = {} \<and>
    set (schemas files) \<inter> set (tables files) = {} \<and>
    (\<forall>p. count_list (databases files @ schemas files @ tables files) p =
       (if HasSuffix p ''.sql'' then count_list (regular vs) p else 0))"
proof -
  let ?d = "\<lambda>p. HasSuffix p dbSuffix"
  let ?s = "\<lambda>p. \<not> HasSuffix p dbSuffix \<and> HasSuffix p schemaSuffix"
  let ?t = "\<lambda>p. \<not> HasSuffix p dbSuffix \<and> \<not> HasSuffix p schemaSuffix \<and>
                 HasSuffix p tableSuffix"
  have sub1: "HasSuffix p tableSuffix" if "HasSuffix p dbSuffix" for p
  proof -
    from that have "suffix ''-schema-create.sql'' p"
      by (simp add: HasSuffix_iff_suffix dbSuffix_def)
    moreover have "suffix ''.sql'' ''-schema-create.sql''"
      by (simp add: suffix_def)
    ultimately show ?thesis
      unfolding HasSuffix_iff_suffix tableSuffix_def by (rule suffix_order.trans [rotated])
  qed
  have sub2: "HasSuffix p tableSuffix" if "HasSuffix p schemaSuffix" for p
  proof -
    from that have "suffix ''-schema.sql'' p"
      by (simp add: HasSuffix_iff_suffix schemaSuffix_def)
    moreover have "suffix ''.sql'' ''-schema.sql''"
      by (simp add: suffix_def)
    ultimately show ?thesis
      unfolding HasSuffix_iff_suffix tableSuffix_def by (rule suffix_order.trans [rotated])
  qed
  have cnt: "count_list (filter ?d xs @ filter ?s xs @ filter ?t xs) p =
      (if HasSuffix p tableSuffix then count_list xs p else 0)" for xs p
    by (induction xs) (auto dest: sub1 sub2)
  from walk_lists [OF assms, of "\<lparr>databases = [], schemas = [], tables = []\<rparr>"]
  have "loadFiles vs = Inr \<lparr>databases = filter ?d (regular vs),
      schemas = filter ?s (regular vs), tables = filter ?t (regular vs)\<rparr>"
    by (simp add: loadFiles_def)
  then show ?thesis
    using cnt [of "regular vs"]
    by (auto simp: dbSuffix_def schemaSuffix_def tableSuffix_def)
qed

theorem loadFiles_classification_witness:
  "noWalkError
     [(''dump'', True, False), (''dump/a-schema-create.sql'', False, False),
      (''dump/a.b-schema.sql'', False, False), (''dump/a.b.1.sql'', False, False),
      (''dump/a.b.sql'', False, False), (''dump/readme.txt'', False, False)] \<and>
   (\<exists>files. loadFiles
     [(''dump'', True, False), (''dump/a-schema-create.sql'', False, False),
      (''dump/a.b-schema.sql'', False, False), (''dump/a.b.1.sql'', False, False),
      (''dump/a.b.sql'', False, False), (''dump/readme.txt'', False, False)] = Inr files \<and>
      databases files = [''dump/a-schema-create.sql''] \<and>
      schemas files = [''dump/a.b-schema.sql''] \<and>
      tables files = [''dump/a.b.1.sql'', ''dump/a.b.sql''])"
proof -
  let ?vs = "[(''dump'', True, False), (''dump/a-schema-create.sql'', False, False),
      (''dump/a.b-schema.sql'', False, False), (''dump/a.b.1.sql'', False, False),
      (''dump/a.b.sql'', False, False), (''dump/readme.txt'', False, False)]"
  have h: "noWalkError ?vs"
    by (simp add: noWalkError_def)
  from loadFiles_classification [OF h] obtain files where
    "loadFiles ?vs = Inr files"
    "databases files = filter (\<lambda>p. HasSuffix p ''-schema-create.sql'') (regular ?vs)"
    "schemas files = filter (\<lambda>p. \<not> HasSuffix p ''-schema-create.sql'' \<and>
                               HasSuffix p ''-schema.sql'') (regular ?vs)"
    "tables files = filter (\<lambda>p. \<not> HasSuffix p ''-schema-create.sql'' \<and>
                              \<not> HasSuffix p ''-schema.sql'' \<and>
                              HasSuffix p ''.sql'') (regular ?vs)"
    by blast
  then have "loadFiles ?vs = Inr files \<and>
      databases files = [''dump/a-schema-create.sql''] \<and>
      schemas files = [''dump/a.b-schema.sql''] \<and>
      tables files = [''dump/a.b.1.sql'', ''dump/a.b.sql'']"
    by (simp add: regular_def HasSuffix_def)
  with h show ?thesis by blast
qed

subsection \<open>The restore functions, file by file\<close>

lemma execQuerys_Cons:
  "execQuerys exec k f c (q # qs) w =
     (if isStatement q then
        (let (w1, err) = Execute exec k f c q w
         in AssertNil err w1 (execQuerys exec k f c qs w1))
      else execQuerys exec k f c qs w)"
  by (auto simp: isStatement_def)

declare execQuerys.simps(2) [simp del]

lemma replay_append:
  "replay exec (xs @ ys) s =
     (case replay exec xs s of None \<Rightarrow> None | Some s' \<Rightarrow> replay exec ys s')"
  by (induction xs arbitrary: s) (auto split: option.splits)

lemma ran_refl [simp]: "ran exec w [] w"
  by (simp add: ran_def)

lemma ran_logs [simp]: "ran exec w xs (w'\<lparr>logs := l\<rparr>) = ran exec w xs w'"
  "ran exec (w\<lparr>logs := l\<rparr>) xs w' = ran exec w xs w'"
  by (simp_all add: ran_def)

lemma ran_trans: "ran exec w xs w1 \<Longrightarrow> ran exec w1 ys w2 \<Longrightarrow> ran exec w (xs @ ys) w2"
  by (simp add: ran_def replay_append)

lemma failed_logs [simp]:
  "failed exec (w\<lparr>logs := l\<rparr>) xs e w' = failed exec w xs e w'"
  by (simp add: failed_def split: panic.splits)

lemma ran_failed: "ran exec w xs w1 \<Longrightarrow> failed exec w1 ys e w' \<Longrightarrow> failed exec w (xs @ ys) e w'"
  by (cases e) (auto simp: failed_def ran_def replay_append butlast_append)

lemma Execute_ok:
  "Execute exec k f c q w = (w1, None) \<Longrightarrow> ran exec w [Call k f c q] w1 \<and> logs w1 = logs w"
  by (auto simp: Execute_def ran_def Let_def split: option.splits)

lemma Execute_err:
  "Execute exec k f c q w = (w1, Some e) \<Longrightarrow>
     failed exec w [Call k f c q] e w1 \<and> e = ExecError c q \<and> logs w1 = logs w"
  by (auto simp: Execute_def failed_def Let_def split: option.splits)

lemma execQuerys_Inr:
  "execQuerys exec k f c qs w = Inr w' \<Longrightarrow>
     ran exec w (map (Call k f c) (filter isStatement qs)) w' \<and>
     logs w' = logs w"
proof (induction qs arbitrary: w)
  case Nil
  then show ?case by simp
next
  case (Cons q qs)
  show ?case
  proof (cases "isStatement q")
    case True
    obtain w1 err where ex: "Execute exec k f c q w = (w1, err)"
      by (cases "Execute exec k f c q w")
    with Cons.prems True have err: "err = None" and rest: "execQuerys exec k f c qs w1 = Inr w'"
      by (auto simp: execQuerys_Cons AssertNil_def split: option.splits)
    from Execute_ok [of exec k f c q w w1] ex err
    have 1: "ran exec w [Call k f c q] w1" "logs w1 = logs w"
      by simp_all
    from Cons.IH [OF rest]
    have 2: "ran exec w1 (map (Call k f c) (filter isStatement qs)) w'"
      and 3: "logs w' = logs w1"
      by simp_all
    from ran_trans [OF 1(1) 2] 3 1(2) True show ?thesis
      by simp
  next
    case False
    with Cons show ?thesis by (simp add: execQuerys_Cons)
  qed
qed

lemma execQuerys_Inl:
  "execQuerys exec k f c qs w = Inl (e, w') \<Longrightarrow>
     (\<exists>n < length (filter isStatement qs).
        failed exec w (map (Call k f c) (take (Suc n) (filter isStatement qs))) e w') \<and>
     (\<exists>q. e = ExecError c q) \<and> logs w' = logs w"
proof (induction qs arbitrary: w)
  case Nil
  then show ?case by simp
next
  case (Cons q qs)
  let ?P = isStatement
  show ?case
  proof (cases "isStatement q")
    case True
    obtain w1 err where ex: "Execute exec k f c q w = (w1, err)"
      by (cases "Execute exec k f c q w")
    show ?thesis
    proof (cases err)
      case None
      with Cons.prems True ex have rest: "execQuerys exec k f c qs w1 = Inl (e, w')"
        by (auto simp: execQuerys_Cons AssertNil_def)
      from Execute_ok [of exec k f c q w w1] ex None
      have 1: "ran exec w [Call k f c q] w1" "logs w1 = logs w"
        by simp_all
      from Cons.IH [OF rest] obtain n where n: "n < length (filter ?P qs)"
        "failed exec w1 (map (Call k f c) (take (Suc n) (filter ?P qs))) e w'"
        "\<exists>q. e = ExecError c q" "logs w' = logs w1"
        by blast
      from ran_failed [OF 1(1) n(2)] True
      have "failed exec w (map (Call k f c) (take (Suc (Suc n)) (filter ?P (q # qs)))) e w'"
        by simp
      moreover have "Suc n < length (filter ?P (q # qs))"
        using n(1) True by simp
      ultimately have "\<exists>m < length (filter ?P (q # qs)).
          failed exec w (map (Call k f c) (take (Suc m) (filter ?P (q # qs)))) e w'"
        by blast
      with n(3,4) 1(2) show ?thesis
        by simp
    next
      case (Some e')
      with Cons.prems True ex have "e' = e" "w1 = w'"
        by (auto simp: execQuerys_Cons AssertNil_def)
      with Execute_err [of exec k f c q w w1 e'] ex Some
      have f: "failed exec w [Call k f c q] e w'" "e = ExecError c q" "logs w' = logs w"
        by blast+
      from f(1) True have "\<exists>m < length (filter ?P (q # qs)).
          failed exec w (map (Call k f c) (take (Suc m) (filter ?P (q # qs)))) e w'"
        by (intro exI [of _ 0]) simp
      with f(2,3) show ?thesis
        by simp
    qed
  next
    case False
    with Cons show ?thesis by (simp add: execQuerys_Cons)
  qed
qed

lemma execQuerys_append_Inl:
  "execQuerys exec k f c qs w = Inl p \<Longrightarrow> execQuerys exec k f c (qs @ qs2) w = Inl p"
proof (induction qs arbitrary: w)
  case Nil
  then show ?case by simp
next
  case (Cons q qs)
  show ?case
  proof (cases "isStatement q")
    case True
    obtain w1 err where ex: "Execute exec k f c q w = (w1, err)"
      by (cases "Execute exec k f c q w")
    show ?thesis
    proof (cases err)
      case None
      with Cons.prems True ex have "execQuerys exec k f c qs w1 = Inl p"
        by (simp add: execQuerys_Cons AssertNil_def)
      from Cons.IH [OF this] True ex None show ?thesis
        by (simp add: execQuerys_Cons AssertNil_def)
    next
      case (Some e)
      with Cons.prems True ex show ?thesis
        by (simp add: execQuerys_Cons AssertNil_def)
    qed
  next
    case False
    with Cons show ?thesis by (simp add: execQuerys_Cons)
  qed
qed

lemma useAndReplay_Inr:
  assumes "useAndReplay exec fs k c f db w = Inr (data, w')"
  shows "fs f = Some data \<and> ran exec w (fileCalls k c f db data) w' \<and> logs w' = logs w"
proof -
  obtain w1 err where ex: "Execute exec k f c (useStmt db) w = (w1, err)"
    by (cases "Execute exec k f c (useStmt db) w")
  with assms have err: "err = None"
    by (cases err) (simp_all add: useAndReplay_def AssertNil_def)
  from Execute_ok [of exec k f c "useStmt db" w w1] ex err
  have 1: "ran exec w [Call k f c (useStmt db)] w1" "logs w1 = logs w"
    by simp_all
  from assms ex err have rest: "(let (data, err) = ReadFile fs f
           in AssertNil err w1
               (case execQuerys exec k f c (Split data sep) w1 of
                  Inl p \<Rightarrow> Inl p
                | Inr w2 \<Rightarrow> Inr (data, w2))) = Inr (data, w')"
    by (simp add: useAndReplay_def AssertNil_def)
  have rd: "fs f = Some data" and q: "execQuerys exec k f c (Split data sep) w1 = Inr w'"
  proof -
    from rest obtain d where d: "fs f = Some d"
      by (cases "fs f") (simp_all add: ReadFile_def AssertNil_def)
    with rest have "(case execQuerys exec k f c (Split d sep) w1 of
                  Inl p \<Rightarrow> Inl p
                | Inr w2 \<Rightarrow> Inr (d, w2)) = Inr (data, w')"
      by (simp add: ReadFile_def AssertNil_def)
    then have "d = data \<and> execQuerys exec k f c (Split d sep) w1 = Inr w'"
      by (cases "execQuerys exec k f c (Split d sep) w1") simp_all
    with d show "fs f = Some data" "execQuerys exec k f c (Split data sep) w1 = Inr w'"
      by auto
  qed
  from execQuerys_Inr [OF q]
  have 2: "ran exec w1 (map (Call k f c) (statements data)) w'" "logs w' = logs w1"
    by (simp_all add: statements_def)
  from ran_trans [OF 1(1) 2(1)] rd 1(2) 2(2) show ?thesis
    by (simp add: fileCalls_def)
qed

lemma useAndReplay_Inl:
  assumes "useAndReplay exec fs k c f db w = Inl (e, w')"
  shows "\<exists>xs. prefix xs (fileCalls k c f db (fst (ReadFile fs f))) \<and> failed exec w xs e w' \<and>
           logs w' = logs w \<and>
           ((\<exists>q. e = ExecError c q) \<or> e = ReadError f \<and> fs f = None)"
proof -
  obtain w1 err where ex: "Execute exec k f c (useStmt db) w = (w1, err)"
    by (cases "Execute exec k f c (useStmt db) w")
  show ?thesis
  proof (cases err)
    case (Some e')
    with assms ex have "e' = e" "w1 = w'"
      by (simp_all add: useAndReplay_def AssertNil_def)
    with Execute_err [of exec k f c "useStmt db" w w1 e'] ex Some
    have f: "failed exec w [Call k f c (useStmt db)] e w'" "e = ExecError c (useStmt db)"
      "logs w' = logs w"
      by blast+
    have "prefix [Call k f c (useStmt db)] (fileCalls k c f db (fst (ReadFile fs f)))"
      by (simp add: fileCalls_def)
    with f show ?thesis
      by (intro exI [of _ "[Call k f c (useStmt db)]"]) simp
  next
    case None
    from Execute_ok [of exec k f c "useStmt db" w w1] ex None
    have 1: "ran exec w [Call k f c (useStmt db)] w1" "logs w1 = logs w"
      by simp_all
    show ?thesis
    proof (cases "fs f")
      case noFile: None
      with assms ex \<open>err = None\<close> have "e = ReadError f" "w' = w1"
        by (simp_all add: useAndReplay_def AssertNil_def ReadFile_def)
      moreover have "prefix [Call k f c (useStmt db)] (fileCalls k c f db (fst (ReadFile fs f)))"
        by (simp add: fileCalls_def)
      moreover have "failed exec w [Call k f c (useStmt db)] (ReadError f) w1"
        using 1(1) by (simp add: failed_def)
      ultimately show ?thesis
        using 1(2) noFile by (intro exI [of _ "[Call k f c (useStmt db)]"]) simp
    next
      case (Some data)
      with assms ex \<open>err = None\<close>
      have "(case execQuerys exec k f c (Split data sep) w1 of
                  Inl p \<Rightarrow> Inl p
                | Inr w2 \<Rightarrow> Inr (data, w2)) = Inl (e, w')"
        by (simp add: useAndReplay_def AssertNil_def ReadFile_def)
      then have q: "execQuerys exec k f c (Split data sep) w1 = Inl (e, w')"
        by (cases "execQuerys exec k f c (Split data sep) w1") simp_all
      from execQuerys_Inl [OF q] obtain n where
        n: "failed exec w1 (map (Call k f c) (take (Suc n) (statements data))) e w'"
        and e: "\<exists>q. e = ExecError c q" and l: "logs w' = logs w1"
        unfolding statements_def by blast
      let ?xs = "Call k f c (useStmt db) # map (Call k f c) (take (Suc n) (statements data))"
      from ran_failed [OF 1(1) n] have "failed exec w ?xs e w'"
        by simp
      moreover have "prefix ?xs (fileCalls k c f db (fst (ReadFile fs f)))"
        using Some by (simp add: fileCalls_def ReadFile_def take_is_prefix map_mono_prefix)
      ultimately show ?thesis
        using e l 1(2) by (intro exI [of _ ?xs]) simp
    qed
  qed
qed

lemma restoreDatabaseSchema_Cons:
  "restoreDatabaseSchema exec fs c (db # dbs) w =
     (case fs db of
        None \<Rightarrow> Inl (ReadError db, w)
      | Some q \<Rightarrow>
          (case Execute exec DatabaseFile db c q w of
             (w1, Some e) \<Rightarrow> Inl (e, w1)
           | (w1, None) \<Rightarrow>
               restoreDatabaseSchema exec fs c dbs
                 (w1\<lparr>logs := logs w1 @ [RestoringDatabase (TrimSuffix (Base db) dbSuffix)]\<rparr>)))"
  by (simp add: ReadFile_def AssertNil_def Let_def split: option.splits prod.splits)

lemma restoreTableSchema_Cons:
  "restoreTableSchema exec fs c (schema # rest) w =
     (case useAndReplay exec fs SchemaFile c schema (schemaDb schema) w of
        Inl p \<Rightarrow> Inl p
      | Inr (data, w2) \<Rightarrow>
          restoreTableSchema exec fs c rest
            (w2\<lparr>logs := logs w2 @ [RestoringSchema (Trim (Base schema) schemaSuffix)]\<rparr>))"
proof -
  let ?db = "Split (Trim (Base schema) schemaSuffix) ''.'' ! 0"
  have nz: "0 < length (Split (Trim (Base schema) schemaSuffix) ''.'')"
    using Split_not_Nil by simp
  obtain w1 err where ex: "Execute exec SchemaFile schema c (useStmt ?db) w = (w1, err)"
    by (cases "Execute exec SchemaFile schema c (useStmt ?db) w")
  show ?thesis
  proof (cases err)
    case (Some e)
    with ex nz show ?thesis
      by (simp add: at_def useAndReplay_def schemaDb_def AssertNil_def)
  next
    case None
    show ?thesis
    proof (cases "fs schema")
      case noFile: None
      with ex nz \<open>err = None\<close> show ?thesis
        by (simp add: at_def useAndReplay_def schemaDb_def AssertNil_def ReadFile_def)
    next
      case (Some data)
      with ex nz \<open>err = None\<close> show ?thesis
        by (cases "execQuerys exec SchemaFile schema c (Split data sep) w1")
           (simp_all add: at_def useAndReplay_def schemaDb_def AssertNil_def ReadFile_def)
    qed
  qed
qed

lemma restoreTable_eq:
  "restoreTable exec fs c table w =
     (if length (tableSplits table) < 2
        then Inl (IndexOutOfRange 1 (length (tableSplits table)), w)
      else
        (case useAndReplay exec fs TableFile c table (tableSplits table ! 0)
                (w\<lparr>logs := logs w @
                   [RestoringTables (tableSplits table ! 1)
                      (if length (tableSplits table) > 2 then tableSplits table ! 2 else ''0'') c]\<rparr>) of
           Inl p \<Rightarrow> Inl p
         | Inr (data, w2) \<Rightarrow>
             Inr (length data,
                  w2\<lparr>logs := logs w2 @
                     [RestoringTablesDone (tableSplits table ! 1)
                        (if length (tableSplits table) > 2 then tableSplits table ! 2 else ''0'') c]\<rparr>)))"
proof -
  let ?sp = "Split (Trim (Base table) tableSuffix) ''.''"
  let ?part = "if length ?sp > 2 then ?sp ! 2 else ''0''"
  let ?w0 = "w\<lparr>logs := logs w @ [RestoringTables (?sp ! 1) ?part c]\<rparr>"
  have nz: "0 < length ?sp"
    using Split_not_Nil by simp
  show ?thesis
  proof (cases "length ?sp < 2")
    case True
    with nz show ?thesis
      by (simp add: restoreTable_def tableSplits_def Let_def at_def)
  next
    case False
    then have two: "1 < length ?sp" by simp
    obtain w1 err where ex: "Execute exec TableFile table c (useStmt (?sp ! 0)) ?w0 = (w1, err)"
      by (cases "Execute exec TableFile table c (useStmt (?sp ! 0)) ?w0")
    show ?thesis
    proof (cases err)
      case (Some e)
      with ex nz two show ?thesis
        by (simp add: restoreTable_def tableSplits_def Let_def at_def useAndReplay_def AssertNil_def split: if_splits)
    next
      case None
      show ?thesis
      proof (cases "fs table")
        case noFile: None
        with ex nz two \<open>err = None\<close> show ?thesis
          by (simp add: restoreTable_def tableSplits_def Let_def at_def useAndReplay_def AssertNil_def ReadFile_def split: if_splits)
      next
        case (Some data)
        with ex nz two \<open>err = None\<close> show ?thesis
          by (cases "execQuerys exec TableFile table c (Split data sep) w1")
             (simp_all add: restoreTable_def tableSplits_def Let_def at_def useAndReplay_def AssertNil_def ReadFile_def split: if_splits)
      qed
    qed
  qed
qed

declare restoreDatabaseSchema.simps(2) [simp del]

declare restoreTableSchema.simps(2) [simp del]

lemma restoreDatabaseSchema_Inr:
  "restoreDatabaseSchema exec fs c dbs w = Inr w' \<Longrightarrow>
     ran exec w (dbCalls fs c dbs) w' \<and>
     logs w' = logs w @ map (\<lambda>db. RestoringDatabase (dbName db)) dbs \<and>
     (\<forall>db \<in> set dbs. fs db \<noteq> None)"
proof (induction dbs arbitrary: w)
  case Nil
  then show ?case by (simp add: dbCalls_def)
next
  case (Cons db dbs)
  from Cons.prems obtain q where q: "fs db = Some q"
    by (cases "fs db") (simp_all add: restoreDatabaseSchema_Cons)
  obtain w1 err where ex: "Execute exec DatabaseFile db c q w = (w1, err)"
    by (cases "Execute exec DatabaseFile db c q w")
  with Cons.prems q have err: "err = None"
    by (cases err) (simp_all add: restoreDatabaseSchema_Cons)
  let ?w1 = "w1\<lparr>logs := logs w1 @ [RestoringDatabase (dbName db)]\<rparr>"
  from Cons.prems q ex err have rest: "restoreDatabaseSchema exec fs c dbs ?w1 = Inr w'"
    by (simp add: restoreDatabaseSchema_Cons dbName_def)
  from Execute_ok [of exec DatabaseFile db c q w w1] ex err
  have 1: "ran exec w [Call DatabaseFile db c q] w1" "logs w1 = logs w"
    by simp_all
  from Cons.IH [OF rest]
  have 2: "ran exec w1 (dbCalls fs c dbs) w'"
    "logs w' = logs ?w1 @ map (\<lambda>db. RestoringDatabase (dbName db)) dbs"
    "\<forall>db \<in> set dbs. fs db \<noteq> None"
    by simp_all
  from ran_trans [OF 1(1) 2(1)] have "ran exec w (dbCalls fs c (db # dbs)) w'"
    using q by (simp add: dbCalls_def ReadFile_def)
  with 2(2,3) 1(2) q show ?case
    by simp
qed

lemma restoreDatabaseSchema_Inl:
  "restoreDatabaseSchema exec fs c dbs w = Inl (e, w') \<Longrightarrow>
     \<exists>xs. prefix xs (dbCalls fs c dbs) \<and> failed exec w xs e w' \<and>
       ((\<exists>q. e = ExecError c q) \<or> (\<exists>p \<in> set dbs. e = ReadError p \<and> fs p = None))"
proof (induction dbs arbitrary: w)
  case Nil
  then show ?case by simp
next
  case (Cons db dbs)
  show ?case
  proof (cases "fs db")
    case None
    with Cons.prems have "e = ReadError db" "w' = w"
      by (simp_all add: restoreDatabaseSchema_Cons)
    with None show ?thesis
      by (intro exI [of _ "[]"]) (simp add: failed_def)
  next
    case (Some q)
    obtain w1 err where ex: "Execute exec DatabaseFile db c q w = (w1, err)"
      by (cases "Execute exec DatabaseFile db c q w")
    show ?thesis
    proof (cases err)
      case bad: (Some e')
      with Cons.prems Some ex have "e' = e" "w1 = w'"
        by (simp_all add: restoreDatabaseSchema_Cons)
      with Execute_err [of exec DatabaseFile db c q w w1 e'] ex bad
      have f: "failed exec w [Call DatabaseFile db c q] e w'" "e = ExecError c q"
        by blast+
      with Some show ?thesis
        by (intro exI [of _ "[Call DatabaseFile db c q]"]) (simp add: dbCalls_def ReadFile_def)
    next
      case None
      let ?w1 = "w1\<lparr>logs := logs w1 @ [RestoringDatabase (dbName db)]\<rparr>"
      from Cons.prems Some ex None have rest: "restoreDatabaseSchema exec fs c dbs ?w1 = Inl (e, w')"
        by (simp add: restoreDatabaseSchema_Cons dbName_def)
      from Execute_ok [of exec DatabaseFile db c q w w1] ex None
      have 1: "ran exec w [Call DatabaseFile db c q] w1"
        by simp
      from Cons.IH [OF rest] obtain xs where xs: "prefix xs (dbCalls fs c dbs)"
        "failed exec w1 xs e w'"
        "(\<exists>q. e = ExecError c q) \<or> (\<exists>p \<in> set dbs. e = ReadError p \<and> fs p = None)"
        by auto
      from ran_failed [OF 1 xs(2)] have "failed exec w (Call DatabaseFile db c q # xs) e w'"
        by simp
      moreover from xs(1) Some have "prefix (Call DatabaseFile db c q # xs) (dbCalls fs c (db # dbs))"
        by (simp add: dbCalls_def ReadFile_def)
      ultimately show ?thesis
        using xs(3) by (intro exI [of _ "Call DatabaseFile db c q # xs"]) auto
    qed
  qed
qed

lemma restoreTableSchema_Inr:
  "restoreTableSchema exec fs c scs w = Inr w' \<Longrightarrow>
     ran exec w (schemaCalls fs c scs) w' \<and> (\<forall>sc \<in> set scs. fs sc \<noteq> None)"
proof (induction scs arbitrary: w)
  case Nil
  then show ?case by (simp add: schemaCalls_def)
next
  case (Cons sc scs)
  from Cons.prems obtain data w2 where
    one: "useAndReplay exec fs SchemaFile c sc (schemaDb sc) w = Inr (data, w2)"
    by (cases "useAndReplay exec fs SchemaFile c sc (schemaDb sc) w")
       (auto simp: restoreTableSchema_Cons)
  let ?w2 = "w2\<lparr>logs := logs w2 @ [RestoringSchema (Trim (Base sc) schemaSuffix)]\<rparr>"
  from Cons.prems one have rest: "restoreTableSchema exec fs c scs ?w2 = Inr w'"
    by (simp add: restoreTableSchema_Cons)
  from useAndReplay_Inr [OF one]
  have 1: "fs sc = Some data" "ran exec w (fileCalls SchemaFile c sc (schemaDb sc) data) w2"
    by simp_all
  from Cons.IH [OF rest] have 2: "ran exec w2 (schemaCalls fs c scs) w'"
    "\<forall>sc \<in> set scs. fs sc \<noteq> None"
    by simp_all
  from ran_trans [OF 1(2) 2(1)] 1(1) 2(2) show ?case
    by (simp add: schemaCalls_def ReadFile_def)
qed

lemma restoreTableSchema_Inl:
  "restoreTableSchema exec fs c scs w = Inl (e, w') \<Longrightarrow>
     \<exists>xs. prefix xs (schemaCalls fs c scs) \<and> failed exec w xs e w' \<and>
       ((\<exists>q. e = ExecError c q) \<or> (\<exists>p \<in> set scs. e = ReadError p \<and> fs p = None))"
proof (induction scs arbitrary: w)
  case Nil
  then show ?case by simp
next
  case (Cons sc scs)
  show ?case
  proof (cases "useAndReplay exec fs SchemaFile c sc (schemaDb sc) w")
    case (Inl p)
    with Cons.prems have p: "p = (e, w')"
      by (simp add: restoreTableSchema_Cons)
    from useAndReplay_Inl [OF Inl [unfolded p]] obtain xs where
      xs: "prefix xs (fileCalls SchemaFile c sc (schemaDb sc) (fst (ReadFile fs sc)))"
      "failed exec w xs e w'"
      "(\<exists>q. e = ExecError c q) \<or> e = ReadError sc \<and> fs sc = None"
      by blast
    from xs(1) have "prefix xs (schemaCalls fs c (sc # scs))"
      by (simp add: schemaCalls_def prefix_prefix)
    with xs(2,3) show ?thesis
      by (intro exI [of _ xs]) auto
  next
    case (Inr r)
    obtain data w2 where r: "r = (data, w2)"
      by (cases r)
    let ?w2 = "w2\<lparr>logs := logs w2 @ [RestoringSchema (Trim (Base sc) schemaSuffix)]\<rparr>"
    from Cons.prems Inr r have rest: "restoreTableSchema exec fs c scs ?w2 = Inl (e, w')"
      by (simp add: restoreTableSchema_Cons)
    from useAndReplay_Inr [OF Inr [unfolded r]]
    have 1: "fs sc = Some data" "ran exec w (fileCalls SchemaFile c sc (schemaDb sc) data) w2"
      by simp_all
    from Cons.IH [OF rest] obtain xs where xs: "prefix xs (schemaCalls fs c scs)"
      "failed exec w2 xs e w'"
      "(\<exists>q. e = ExecError c q) \<or> (\<exists>p \<in> set scs. e = ReadError p \<and> fs p = None)"
      by auto
    let ?xs = "fileCalls SchemaFile c sc (schemaDb sc) data @ xs"
    from ran_failed [OF 1(2) xs(2)] have "failed exec w ?xs e w'" .
    moreover from xs(1) 1(1) have "prefix ?xs (schemaCalls fs c (sc # scs))"
      by (simp add: schemaCalls_def ReadFile_def)
    ultimately show ?thesis
      using xs(3) by (intro exI [of _ ?xs]) auto
  qed
qed

lemma restoreTable_Inr:
  assumes "restoreTable exec fs c table w = Inr (n, w')"
  shows "\<exists>data. fs table = Some data \<and> n = length data \<and>
           ran exec w (tableCalls fs c table) w' \<and> 2 \<le> length (tableSplits table)"
proof -
  from assms have two: "\<not> length (tableSplits table) < 2"
    by (auto simp: restoreTable_eq split: if_splits)
  let ?part = "if length (tableSplits table) > 2 then tableSplits table ! 2 else ''0''"
  let ?w0 = "w\<lparr>logs := logs w @ [RestoringTables (tableSplits table ! 1) ?part c]\<rparr>"
  from assms two obtain data w2 where
    one: "useAndReplay exec fs TableFile c table (tableSplits table ! 0) ?w0 = Inr (data, w2)"
    and n: "n = length data"
    and w': "w' = w2\<lparr>logs := logs w2 @ [RestoringTablesDone (tableSplits table ! 1) ?part c]\<rparr>"
    by (cases "useAndReplay exec fs TableFile c table (tableSplits table ! 0) ?w0")
       (auto simp: restoreTable_eq)
  from useAndReplay_Inr [OF one]
  have "fs table = Some data" "ran exec ?w0 (fileCalls TableFile c table (tableSplits table ! 0) data) w2"
    by simp_all
  with n w' two show ?thesis
    by (simp add: tableCalls_def ReadFile_def)
qed

lemma restoreTable_Inl:
  assumes "restoreTable exec fs c table w = Inl (e, w')"
  shows "\<exists>xs. prefix xs (tableCalls fs c table) \<and> failed exec w xs e w' \<and>
           ((\<exists>q. e = ExecError c q) \<or> e = ReadError table \<and> fs table = None \<or>
            e = IndexOutOfRange 1 (length (tableSplits table)) \<and> length (tableSplits table) < 2)"
proof (cases "length (tableSplits table) < 2")
  case True
  with assms have "e = IndexOutOfRange 1 (length (tableSplits table))" "w' = w"
    by (simp_all add: restoreTable_eq)
  with True show ?thesis
    by (intro exI [of _ "[]"]) (simp add: failed_def)
next
  case False
  let ?part = "if length (tableSplits table) > 2 then tableSplits table ! 2 else ''0''"
  let ?w0 = "w\<lparr>logs := logs w @ [RestoringTables (tableSplits table ! 1) ?part c]\<rparr>"
  from assms False
  have one: "useAndReplay exec fs TableFile c table (tableSplits table ! 0) ?w0 = Inl (e, w')"
    by (cases "useAndReplay exec fs TableFile c table (tableSplits table ! 0) ?w0")
       (auto simp: restoreTable_eq)
  from useAndReplay_Inl [OF one] obtain xs where
    xs: "prefix xs (tableCalls fs c table)" "failed exec ?w0 xs e w'"
    "(\<exists>q. e = ExecError c q) \<or> e = ReadError table \<and> fs table = None"
    unfolding tableCalls_def by blast
  then show ?thesis
    by (intro exI [of _ xs]) auto
qed

subsection \<open>The logged database name\<close>


lemma stripSlashes_append:
  assumes "suf \<noteq> []" "CHR ''/'' \<notin> set suf"
  shows "stripSlashes (p @ suf) = p @ suf"
proof -
  from assms(1) obtain c cs where r: "rev suf = c # cs"
    by (cases "rev suf") auto
  then have "c \<in> set (rev suf)"
    by simp
  with assms(2) have "c \<noteq> CHR ''/''"
    by auto
  with r show ?thesis
    by (simp add: stripSlashes_def)
qed

lemma lastElem_append:
  assumes "CHR ''/'' \<notin> set suf"
  shows "lastElem (p @ suf) = lastElem p @ suf"
proof -
  have "takeWhile (\<lambda>c. c \<noteq> CHR ''/'') (rev suf @ rev p) =
      rev suf @ takeWhile (\<lambda>c. c \<noteq> CHR ''/'') (rev p)"
    using assms by (intro takeWhile_append2) auto
  then show ?thesis
    by (simp add: lastElem_def)
qed

lemma Base_append:
  assumes "suf \<noteq> []" "CHR ''/'' \<notin> set suf"
  shows "Base (p @ suf) = lastElem p @ suf"
  using assms by (simp add: Base_def stripSlashes_append lastElem_append)

lemma Base_dbSuffix:
  assumes "HasSuffix p dbSuffix"
  shows "\<exists>n. Base p = n @ dbSuffix"
proof -
  from assms obtain p0 where "p = p0 @ dbSuffix"
    by (auto simp: HasSuffix_iff_suffix suffix_def)
  moreover have "Base (p0 @ dbSuffix) = lastElem p0 @ dbSuffix"
    by (rule Base_append) (simp_all add: dbSuffix_def)
  ultimately show ?thesis by blast
qed

text \<open>
  C10. \<open>restoreDatabaseSchema\<close> logs, for each database-schema file, the base name of
  the file with the literal suffix \<open>-schema-create.sql\<close> removed once from its end:
  the base name of such a file is \<open>n @ ''-schema-create.sql''\<close> for exactly one \<open>n\<close>,
  and the line logged for the file is \<open>RestoringDatabase n\<close>, whatever characters
  \<open>n\<close> consists of.
\<close>

theorem restoreDatabaseSchema_logs_name:
  assumes "restoreDatabaseSchema exec fs c dbs w = Inr w'"
    and "i < length dbs"
    and "HasSuffix (dbs ! i) ''-schema-create.sql''"
  shows "\<exists>n. Base (dbs ! i) = n @ ''-schema-create.sql'' \<and>
           logs w' ! (length (logs w) + i) = RestoringDatabase n"
proof -
  from assms(3) obtain n where n: "Base (dbs ! i) = n @ dbSuffix"
    using Base_dbSuffix [of "dbs ! i"] by (auto simp: dbSuffix_def)
  from restoreDatabaseSchema_Inr [OF assms(1)]
  have "logs w' = logs w @ map (\<lambda>db. RestoringDatabase (dbName db)) dbs"
    by simp
  with assms(2) have "logs w' ! (length (logs w) + i) = RestoringDatabase (dbName (dbs ! i))"
    by (simp add: nth_append)
  with n show ?thesis
    by (auto simp: dbName_def dbSuffix_def)
qed

theorem restoreDatabaseSchema_logs_name_witness:
  "restoreDatabaseSchema (\<lambda>s c q. Some (Suc s)) (\<lambda>p. Some ''CREATE DATABASE sa'') 0
      [''dump/sa-schema-create.sql''] \<lparr>server = 0, calls = [], logs = []\<rparr> =
     Inr \<lparr>server = 1,
          calls = [Call DatabaseFile ''dump/sa-schema-create.sql'' 0 ''CREATE DATABASE sa''],
          logs = [RestoringDatabase ''sa'']\<rparr> \<and>
   (0::nat) < length [''dump/sa-schema-create.sql''] \<and>
   HasSuffix ([''dump/sa-schema-create.sql''] ! 0) ''-schema-create.sql'' \<and>
   (\<exists>n. Base ''dump/sa-schema-create.sql'' = n @ ''-schema-create.sql'' \<and>
        [RestoringDatabase ''sa''] ! 0 = RestoringDatabase n)"
proof -
  let ?w' = "\<lparr>server = Suc 0,
          calls = [Call DatabaseFile ''dump/sa-schema-create.sql'' 0 ''CREATE DATABASE sa''],
          logs = [RestoringDatabase ''sa'']\<rparr>"
  have run: "restoreDatabaseSchema (\<lambda>s c q. Some (Suc s)) (\<lambda>p. Some ''CREATE DATABASE sa'') 0
      [''dump/sa-schema-create.sql''] \<lparr>server = 0, calls = [], logs = []\<rparr> = Inr ?w'"
    by code_simp
  have i: "(0::nat) < length [''dump/sa-schema-create.sql'']"
    by simp
  have suf: "HasSuffix ([''dump/sa-schema-create.sql''] ! 0) ''-schema-create.sql''"
    by (simp add: HasSuffix_def)
  from restoreDatabaseSchema_logs_name [OF run i suf] run i suf show ?thesis
    by simp
qed

subsection \<open>The shuffle\<close>


lemma swap_nth:
  assumes "i < length xs" "j < length xs" "m < length xs"
  shows "xs[i := xs ! j, j := xs ! i] ! m = xs ! (if m = j then i else if m = i then j else m)"
  using assms by (simp add: nth_list_update)

lemma swap_bij:
  assumes "i < n" "j < n"
  shows "bij_betw (\<lambda>m. if m = j then i else if m = i then j else m) {..<n} {..<n::nat}"
  using assms
  by (intro bij_betw_byWitness [where f' = "\<lambda>m. if m = j then i else if m = i then j else m"])
     auto

lemma shuffleFrom_permutation:
  assumes "\<forall>i \<in> set is. i < length xs \<and> rnd i < length xs"
  shows "\<exists>ys f. shuffleFrom rnd is xs = Inr ys \<and> mset ys = mset xs \<and> length ys = length xs \<and>
           bij_betw f {..<length xs} {..<length xs} \<and> (\<forall>k < length xs. ys ! k = xs ! f k)"
  using assms
proof (induction "is" arbitrary: xs)
  case Nil
  have "bij_betw (\<lambda>k. k) {..<length xs} {..<length xs}"
    by (simp add: bij_betw_def)
  then show ?case
    by (intro exI [of _ xs] exI [of _ "\<lambda>k. k"]) simp
next
  case (Cons i "is")
  let ?j = "rnd i"
  let ?xs = "xs[i := xs ! ?j, ?j := xs ! i]"
  let ?t = "\<lambda>m. if m = ?j then i else if m = i then ?j else m"
  from Cons.prems have i: "i < length xs" and j: "?j < length xs"
    by simp_all
  have len: "length ?xs = length xs"
    by simp
  from Cons.prems have "\<forall>k \<in> set is. k < length ?xs \<and> rnd k < length ?xs"
    by simp
  from Cons.IH [OF this] obtain ys f where
    ys: "shuffleFrom rnd is ?xs = Inr ys" "mset ys = mset ?xs" "length ys = length ?xs"
    and f: "bij_betw f {..<length ?xs} {..<length ?xs}" "\<forall>k < length ?xs. ys ! k = ?xs ! f k"
    by blast
  have run: "shuffleFrom rnd (i # is) xs = Inr ys"
    using i j ys(1) by (simp add: Let_def)
  have ms: "mset ys = mset xs"
    using ys(2) mset_swap [OF j i] by simp
  have bij: "bij_betw (?t \<circ> f) {..<length xs} {..<length xs}"
    using f(1) swap_bij [OF i j] unfolding len by (rule bij_betw_trans)
  have nth: "\<forall>k < length xs. ys ! k = xs ! (?t \<circ> f) k"
  proof (intro allI impI)
    fix k assume k: "k < length xs"
    with f(1) have fk: "f k < length xs"
      unfolding len by (auto dest: bij_betwE)
    from k f(2) have "ys ! k = ?xs ! f k"
      by simp
    also have "\<dots> = xs ! ?t (f k)"
      using swap_nth [OF i j fk] .
    finally show "ys ! k = xs ! (?t \<circ> f) k"
      by simp
  qed
  from run ms ys(3) bij nth show ?case
    unfolding len by blast
qed

text \<open>
  C4. For every list and every sequence of random numbers that \<open>rand.Intn\<close> may
  return (\<open>rnd i < i + 1\<close>), the shuffle ends without a panic and its result is a
  permutation of the list: the same elements with the same multiplicities, the same
  length, and position \<open>k\<close> of the result holds the element of position \<open>f k\<close> of
  the input for a bijection \<open>f\<close> on the positions.
\<close>

theorem shuffle_is_permutation:
  assumes "\<forall>i < length xs. rnd i < i + 1"
  shows "\<exists>ys f. shuffle rnd xs = Inr ys \<and> mset ys = mset xs \<and> length ys = length xs \<and>
           bij_betw f {..<length xs} {..<length xs} \<and> (\<forall>k < length xs. ys ! k = xs ! f k)"
proof -
  from assms have "\<forall>i \<in> set [0..<length xs]. i < length xs \<and> rnd i < length xs"
    by fastforce
  from shuffleFrom_permutation [OF this] show ?thesis
    by (simp add: shuffle_def)
qed


theorem shuffle_is_permutation_witness:
  "shuffle (\<lambda>i. i div 2) [''a.sql'', ''b.sql'', ''c.sql'', ''d.sql''] =
     Inr [''b.sql'', ''d.sql'', ''a.sql'', ''c.sql''] \<and>
   mset [''b.sql'', ''d.sql'', ''a.sql'', ''c.sql''] = mset [''a.sql'', ''b.sql'', ''c.sql'', ''d.sql'']"
proof -
  let ?xs = "[''a.sql'', ''b.sql'', ''c.sql'', ''d.sql'']"
  have h: "\<forall>i < length ?xs. (\<lambda>i. i div 2) i < i + 1"
    by (simp add: less_Suc_eq_le)
  have run: "shuffle (\<lambda>i. i div 2) ?xs = Inr [''b.sql'', ''d.sql'', ''a.sql'', ''c.sql'']"
    by code_simp
  from shuffle_is_permutation [OF h] run
  have "mset [''b.sql'', ''d.sql'', ''a.sql'', ''c.sql''] = mset ?xs"
    by auto
  with run show ?thesis
    by blast
qed

subsection \<open>The concurrent phase\<close>

lemma performAll_append:
  "performAll exec (xs @ ys) w =
     (case performAll exec xs w of Inl p \<Rightarrow> Inl p | Inr w1 \<Rightarrow> performAll exec ys w1)"
  by (induction xs arbitrary: w) (auto split: sum.splits)

lemma perform_Exec:
  "perform exec (Exec (Call k f c q)) w =
     (case Execute exec k f c q w of (w1, Some e) \<Rightarrow> Inl (e, w1) | (w1, None) \<Rightarrow> Inr w1)"
  by (simp add: AssertNil_def split: prod.splits option.splits)

lemma performAll_statements:
  "performAll exec (map (\<lambda>q. Exec (Call k f c q)) (filter isStatement qs)) w =
     execQuerys exec k f c qs w"
proof (induction qs arbitrary: w)
  case Nil
  then show ?case by simp
next
  case (Cons q qs)
  show ?case
  proof (cases "isStatement q")
    case True
    obtain w1 err where ex: "Execute exec k f c q w = (w1, err)"
      by (cases "Execute exec k f c q w")
    with True Cons.IH show ?thesis
      by (cases err) (simp_all add: execQuerys_Cons perform_Exec AssertNil_def)
  next
    case False
    with Cons.IH show ?thesis
      by (simp add: execQuerys_Cons)
  qed
qed

lemma restoreTable_performAll:
  "restoreTable exec fs c table w =
     (case performAll exec (tableEffects fs c table) w of
        Inl p \<Rightarrow> Inl p
      | Inr w' \<Rightarrow> Inr (fileBytes fs table, w'))"
proof (cases "length (tableSplits table) < 2")
  case True
  then show ?thesis
    by (simp add: restoreTable_eq tableEffects_def)
next
  case False
  let ?sp = "tableSplits table"
  let ?part = "if length ?sp > 2 then ?sp ! 2 else ''0''"
  let ?w0 = "w\<lparr>logs := logs w @ [RestoringTables (?sp ! 1) ?part c]\<rparr>"
  let ?use = "Call TableFile table c (useStmt (?sp ! 0))"
  obtain w1 err where ex: "Execute exec TableFile table c (useStmt (?sp ! 0)) ?w0 = (w1, err)"
    by (cases "Execute exec TableFile table c (useStmt (?sp ! 0)) ?w0")
  have eff: "tableEffects fs c table =
      Log (RestoringTables (?sp ! 1) ?part c) # Exec ?use #
      (case fs table of
         None \<Rightarrow> [Crash (ReadError table)]
       | Some data \<Rightarrow>
           map (\<lambda>q. Exec (Call TableFile table c q)) (statements data) @
           [Log (RestoringTablesDone (?sp ! 1) ?part c)])"
    using False by (simp add: tableEffects_def Let_def split: option.splits)
  show ?thesis
  proof (cases err)
    case (Some e)
    with ex False show ?thesis
      unfolding eff
      by (simp add: restoreTable_eq useAndReplay_def AssertNil_def perform_Exec del: perform.simps(1))
  next
    case None
    show ?thesis
    proof (cases "fs table")
      case noFile: None
      with ex False \<open>err = None\<close> show ?thesis
        unfolding eff
        by (simp add: restoreTable_eq useAndReplay_def AssertNil_def perform_Exec ReadFile_def
            del: perform.simps(1))
    next
      case (Some data)
      with ex False \<open>err = None\<close> show ?thesis
        unfolding eff
        by (cases "execQuerys exec TableFile table c (Split data sep) w1")
           (simp_all add: restoreTable_eq useAndReplay_def AssertNil_def perform_Exec ReadFile_def
              performAll_append performAll_statements statements_def fileBytes_def
              del: perform.simps(1))
    qed
  qed
qed

lemma tableEffects_kind: "Exec x \<in> set (tableEffects fs c t) \<Longrightarrow> ckind x = TableFile"
  by (auto simp: tableEffects_def Let_def split: if_splits option.splits)

lemma perform_Inr:
  assumes "perform exec x w = Inr w1"
  shows "(\<forall>e. x \<noteq> Crash e) \<and>
         (\<exists>rows. calls w1 = calls w @ rows \<and> (\<forall>y \<in> set rows. x = Exec y))"
proof (cases x)
  case (Exec y)
  obtain w2 err where ex: "Execute exec (ckind y) (cfile y) (cconn y) (csql y) w = (w2, err)"
    by (cases "Execute exec (ckind y) (cfile y) (cconn y) (csql y) w")
  with assms Exec have "err = None" "w2 = w1"
    by (cases err; simp add: AssertNil_def)+
  with ex have "calls w1 = calls w @ [y]"
    by (auto simp: Execute_def Let_def split: option.splits)
  with Exec show ?thesis
    by (intro conjI exI [of _ "[y]"]) simp_all
next
  case (Log l)
  with assms show ?thesis by auto
next
  case (Crash e)
  with assms show ?thesis by simp
qed

lemma perform_Inl:
  assumes "perform exec x w = Inl (e, w1)"
  shows "\<exists>rows. calls w1 = calls w @ rows \<and> (\<forall>y \<in> set rows. x = Exec y)"
proof (cases x)
  case (Exec y)
  obtain w2 err where ex: "Execute exec (ckind y) (cfile y) (cconn y) (csql y) w = (w2, err)"
    by (cases "Execute exec (ckind y) (cfile y) (cconn y) (csql y) w")
  with assms Exec have "w2 = w1"
    by (cases err) (simp_all add: AssertNil_def)
  with ex have "calls w1 = calls w @ [y]"
    by (auto simp: Execute_def Let_def split: option.splits)
  with Exec show ?thesis
    by (intro exI [of _ "[y]"]) simp
next
  case (Log l)
  with assms show ?thesis by simp
next
  case (Crash e')
  with assms show ?thesis by simp
qed

lemma step_rows:
  assumes "step exec fs cf cf'" "onlyTableCalls cf"
  shows "onlyTableCalls cf' \<and>
         (\<exists>rows. calls (world cf') = calls (world cf) @ rows \<and> (\<forall>x \<in> set rows. ckind x = TableFile))"
  using assms(1)
proof cases
  case (dispatch t ts c)
  with assms(2) show ?thesis
    by (auto simp: onlyTableCalls_def dest: tableEffects_kind)
next
  case (work i c t x xs w1)
  from work(2,3) have mem: "Worker c t (x # xs) \<in> set (running cf)"
    by (metis nth_mem)
  with assms(2) have kinds: "\<forall>y. Exec y \<in> set (x # xs) \<longrightarrow> ckind y = TableFile"
    by (force simp: onlyTableCalls_def)
  from perform_Inr [OF work(4)] obtain rows where
    rows: "calls w1 = calls (world cf) @ rows" "\<forall>y \<in> set rows. x = Exec y"
    by blast
  with kinds have "\<forall>y \<in> set rows. ckind y = TableFile"
    by auto
  moreover have "onlyTableCalls cf'"
    unfolding onlyTableCalls_def
  proof (intro ballI allI impI)
    fix wk y assume wk: "wk \<in> set (running cf')" and y: "Exec y \<in> set (todo wk)"
    from wk work(1) have "wk = Worker c t xs \<or> wk \<in> set (running cf)"
      using set_update_subset_insert [of "running cf" i "Worker c t xs"] by auto
    then show "ckind y = TableFile"
    proof
      assume "wk = Worker c t xs"
      with y kinds show ?thesis by simp
    next
      assume "wk \<in> set (running cf)"
      with y assms(2) show ?thesis by (auto simp: onlyTableCalls_def)
    qed
  qed
  ultimately show ?thesis
    using rows(1) work(1) by simp
next
  case (crash i c t x xs e w1)
  from crash(2,3) have mem: "Worker c t (x # xs) \<in> set (running cf)"
    by (metis nth_mem)
  with assms(2) have kinds: "\<forall>y. Exec y \<in> set (x # xs) \<longrightarrow> ckind y = TableFile"
    by (force simp: onlyTableCalls_def)
  from perform_Inl [OF crash(4)] obtain rows where
    rows: "calls w1 = calls (world cf) @ rows" "\<forall>y \<in> set rows. x = Exec y"
    by blast
  with kinds have "\<forall>y \<in> set rows. ckind y = TableFile"
    by auto
  moreover have "set (take i (running cf) @ drop (Suc i) (running cf)) \<subseteq> set (running cf)"
    using set_take_subset [of i "running cf"] set_drop_subset [of "Suc i" "running cf"] by auto
  with assms(2) crash(1) have "onlyTableCalls cf'"
    by (auto simp: onlyTableCalls_def)
  ultimately show ?thesis
    using rows(1) crash(1) by simp
next
  case (finish i c t exec' w r w')
  have "set (take i (running cf) @ drop (Suc i) (running cf)) \<subseteq> set (running cf)"
    using set_take_subset [of i "running cf"] set_drop_subset [of "Suc i" "running cf"] by auto
  with assms(2) finish(1) show ?thesis
    by (auto simp: onlyTableCalls_def)
qed

lemma steps_rows:
  assumes "(step exec fs)\<^sup>*\<^sup>* cf cf'" "onlyTableCalls cf"
  shows "onlyTableCalls cf' \<and>
         (\<exists>rows. calls (world cf') = calls (world cf) @ rows \<and> (\<forall>x \<in> set rows. ckind x = TableFile))"
  using assms
proof (induction rule: rtranclp_induct)
  case base
  then show ?case by simp
next
  case (step cf1 cf2)
  from step.IH [OF step.prems] obtain rows where
    1: "onlyTableCalls cf1" "calls (world cf1) = calls (world cf) @ rows"
    "\<forall>x \<in> set rows. ckind x = TableFile"
    by blast
  from step_rows [OF step.hyps(2) 1(1)] obtain rows' where
    2: "onlyTableCalls cf2" "calls (world cf2) = calls (world cf1) @ rows'"
    "\<forall>x \<in> set rows'. ckind x = TableFile"
    by blast
  from 1 2 show ?case
    by (intro conjI exI [of _ "rows @ rows'"]) auto
qed

lemma failed_calls: "failed exec w xs e w' \<Longrightarrow> calls w' = calls w @ xs"
  by (cases e) (simp_all add: failed_def ran_def)

lemma dbCalls_kind: "x \<in> set (dbCalls fs c dbs) \<Longrightarrow> ckind x = DatabaseFile"
  by (auto simp: dbCalls_def)

lemma schemaCalls_kind: "x \<in> set (schemaCalls fs c scs) \<Longrightarrow> ckind x = SchemaFile"
  by (auto simp: schemaCalls_def fileCalls_def)

lemma schemaPhases_Inr:
  assumes "schemaPhases exec fs c1 c2 files w = Inr w'"
  shows "ran exec w (dbCalls fs c1 (databases files) @ schemaCalls fs c2 (schemas files)) w' \<and>
         (\<forall>f \<in> set (databases files) \<union> set (schemas files). fs f \<noteq> None)"
proof -
  from assms obtain w1 where
    1: "restoreDatabaseSchema exec fs c1 (databases files) w = Inr w1"
    and 2: "restoreTableSchema exec fs c2 (schemas files) w1 = Inr w'"
    by (cases "restoreDatabaseSchema exec fs c1 (databases files) w")
       (simp_all add: schemaPhases_def)
  from restoreDatabaseSchema_Inr [OF 1] restoreTableSchema_Inr [OF 2] show ?thesis
    by (auto intro: ran_trans)
qed

lemma schemaPhases_Inl:
  assumes "schemaPhases exec fs c1 c2 files w = Inl (e, w')"
  shows "\<exists>xs. prefix xs (dbCalls fs c1 (databases files) @ schemaCalls fs c2 (schemas files)) \<and>
           failed exec w xs e w'"
proof (cases "restoreDatabaseSchema exec fs c1 (databases files) w")
  case (Inl p)
  with assms have "restoreDatabaseSchema exec fs c1 (databases files) w = Inl (e, w')"
    by (simp add: schemaPhases_def)
  from restoreDatabaseSchema_Inl [OF this] obtain xs where
    "prefix xs (dbCalls fs c1 (databases files))" "failed exec w xs e w'"
    by blast
  then show ?thesis
    by (intro exI [of _ xs]) (simp add: prefix_prefix)
next
  case (Inr w1)
  with assms have 2: "restoreTableSchema exec fs c2 (schemas files) w1 = Inl (e, w')"
    by (simp add: schemaPhases_def)
  from restoreDatabaseSchema_Inr [OF Inr]
  have 1: "ran exec w (dbCalls fs c1 (databases files)) w1"
    by simp
  from restoreTableSchema_Inl [OF 2] obtain xs where
    xs: "prefix xs (schemaCalls fs c2 (schemas files))" "failed exec w1 xs e w'"
    by blast
  from ran_failed [OF 1 xs(2)] xs(1) show ?thesis
    by (intro exI [of _ "dbCalls fs c1 (databases files) @ xs"]) simp
qed

text \<open>
  C5. In every configuration of a run, the calls of \<open>Execute\<close> made so far are
  schema calls followed by row-data calls: no call for a database-schema or table-schema
  file comes after a call for a row-data file. When a row-data call has been made, the
  schema calls are complete: they are the full text of every database-schema file and
  the database selection and every statement of every table-schema file, in list
  order, every file was read and the server accepted every call. Before that, the
  schema calls are a beginning of this list: database files first, then table-schema
  files. Phases 1 to 3 are function calls of the driver that have returned before the
  dispatch loop starts.
\<close>

theorem schema_before_row_data:
  assumes "Loader exec fs rnd vs free w0 cf"
  shows "\<exists>sch rows.
           calls (world cf) = calls w0 @ sch @ rows \<and>
           (\<forall>x \<in> set sch. ckind x \<noteq> TableFile) \<and>
           (\<forall>x \<in> set rows. ckind x = TableFile) \<and>
           (sch = [] \<or>
            (\<exists>files c1 c2.
               loadFiles vs = Inr files \<and>
               prefix sch (dbCalls fs c1 (databases files) @ schemaCalls fs c2 (schemas files)))) \<and>
           (rows \<noteq> [] \<longrightarrow>
              (\<exists>files c1 c2 s.
                 loadFiles vs = Inr files \<and>
                 sch = dbCalls fs c1 (databases files) @ schemaCalls fs c2 (schemas files) \<and>
                 replay exec sch (server w0) = Some s \<and>
                 (\<forall>f \<in> set (databases files) \<union> set (schemas files). fs f \<noteq> None)))"
  using assms
proof cases
  case (walkPanic e)
  then show ?thesis
    by (intro exI [of _ "[]"]) (simp add: halted_def)
next
  case (schemaPanic files c1 c2 e w)
  from schemaPhases_Inl [OF schemaPanic(5)] obtain xs where
    xs: "prefix xs (dbCalls fs c1 (databases files) @ schemaCalls fs c2 (schemas files))"
    "failed exec w0 xs e w"
    by blast
  from xs(1) have "set xs \<subseteq> set (dbCalls fs c1 (databases files) @ schemaCalls fs c2 (schemas files))"
    by (rule set_mono_prefix)
  moreover have "\<forall>x \<in> set (dbCalls fs c1 (databases files) @ schemaCalls fs c2 (schemas files)).
      ckind x \<noteq> TableFile"
    by (auto dest: dbCalls_kind schemaCalls_kind)
  ultimately have "\<forall>x \<in> set xs. ckind x \<noteq> TableFile"
    by blast
  moreover have "\<exists>files' c1' c2'. loadFiles vs = Inr files' \<and>
      prefix xs (dbCalls fs c1' (databases files') @ schemaCalls fs c2' (schemas files'))"
    using schemaPanic(2) xs(1) by blast
  ultimately show ?thesis
    using failed_calls [OF xs(2)] schemaPanic(1)
    by (intro exI [of _ xs] exI [of _ "[]"]) (simp add: halted_def)
next
  case (shufflePanic files c1 c2 w e)
  let ?sch = "dbCalls fs c1 (databases files) @ schemaCalls fs c2 (schemas files)"
  from schemaPhases_Inr [OF shufflePanic(5)] have "calls w = calls w0 @ ?sch"
    by (simp add: ran_def)
  moreover have "\<forall>x \<in> set ?sch. ckind x \<noteq> TableFile"
    by (auto dest: dbCalls_kind schemaCalls_kind)
  moreover have "\<exists>files' c1' c2'. loadFiles vs = Inr files' \<and>
      prefix ?sch (dbCalls fs c1' (databases files') @ schemaCalls fs c2' (schemas files'))"
    using shufflePanic(2) by (intro exI [of _ files] exI [of _ c1] exI [of _ c2]) simp
  ultimately show ?thesis
    using shufflePanic(1) by (intro exI [of _ ?sch] exI [of _ "[]"]) (simp add: halted_def)
next
  case (dataPhase files c1 c2 w ts)
  let ?sch = "dbCalls fs c1 (databases files) @ schemaCalls fs c2 (schemas files)"
  from schemaPhases_Inr [OF dataPhase(4)]
  have sch: "calls w = calls w0 @ ?sch" "replay exec ?sch (server w0) = Some (server w)"
    "\<forall>f \<in> set (databases files) \<union> set (schemas files). fs f \<noteq> None"
    by (simp_all add: ran_def)
  have kinds: "\<forall>x \<in> set ?sch. ckind x \<noteq> TableFile"
    by (auto dest: dbCalls_kind schemaCalls_kind)
  have "onlyTableCalls (dispatching w ts free)"
    by (simp add: onlyTableCalls_def dispatching_def)
  from steps_rows [OF dataPhase(6) this] obtain rows where
    rows: "calls (world cf) = calls (world (dispatching w ts free)) @ rows"
    "\<forall>x \<in> set rows. ckind x = TableFile"
    by blast
  from rows(1) sch(1) have "calls (world cf) = calls w0 @ ?sch @ rows"
    by (simp add: dispatching_def)
  moreover have "\<exists>files' c1' c2' s.
      loadFiles vs = Inr files' \<and>
      ?sch = dbCalls fs c1' (databases files') @ schemaCalls fs c2' (schemas files') \<and>
      replay exec ?sch (server w0) = Some s \<and>
      (\<forall>f \<in> set (databases files') \<union> set (schemas files'). fs f \<noteq> None)"
    using dataPhase(1) sch(2,3)
    by (intro exI [of _ files] exI [of _ c1] exI [of _ c2] exI [of _ "server w"]) simp
  moreover have "\<exists>files' c1' c2'. loadFiles vs = Inr files' \<and>
      prefix ?sch (dbCalls fs c1' (databases files') @ schemaCalls fs c2' (schemas files'))"
    using dataPhase(1) by (intro exI [of _ files] exI [of _ c1] exI [of _ c2]) simp
  ultimately show ?thesis
    using kinds rows(2) by (intro exI [of _ ?sch] exI [of _ rows]) simp
qed


lemma replay_prefix:
  assumes "replay exec (xs @ ys) s = Some s'"
  shows "\<exists>s1. replay exec xs s = Some s1"
  using assms by (cases "replay exec xs s") (simp_all add: replay_append)

lemma replay_snoc_rejected:
  assumes "replay exec xs s = Some s1" "exec s1 (cconn x) (csql x) = None"
  shows "replay exec (xs @ [x]) s = None"
  using assms by (simp add: replay_append)

lemma restoreTable_returns:
  assumes "fs t = Some data" "2 \<le> length (tableSplits t)"
    and "replay exec (tableCalls fs c t) (server w) = Some s"
  shows "\<exists>w'. restoreTable exec fs c t w = Inr (length data, w') \<and>
              ran exec w (tableCalls fs c t) w'"
proof (cases "restoreTable exec fs c t w")
  case (Inr p)
  obtain n w' where p: "p = (n, w')"
    by (cases p)
  from restoreTable_Inr [OF Inr [unfolded p]] assms(1) p Inr show ?thesis
    by auto
next
  case (Inl p)
  obtain e w' where p: "p = (e, w')"
    by (cases p)
  from restoreTable_Inl [OF Inl [unfolded p]] obtain xs where
    xs: "prefix xs (tableCalls fs c t)" "failed exec w xs e w'"
    and cause: "(\<exists>q. e = ExecError c q) \<or> e = ReadError t \<and> fs t = None \<or>
        e = IndexOutOfRange 1 (length (tableSplits t)) \<and> length (tableSplits t) < 2"
    by blast
  from cause assms(1,2) obtain q where e: "e = ExecError c q"
    by auto
  from xs(2) e have ne: "xs \<noteq> []"
    and acc: "replay exec (butlast xs) (server w) = Some (server w')"
    and rej: "exec (server w') (cconn (last xs)) (csql (last xs)) = None"
    by (simp_all add: failed_def)
  from replay_snoc_rejected [OF acc rej] ne have "replay exec xs (server w) = None"
    by simp
  moreover from xs(1) obtain zs where "tableCalls fs c t = xs @ zs"
    by (auto simp: prefix_def)
  with assms(3) have "\<exists>s1. replay exec xs (server w) = Some s1"
    using replay_prefix [of exec xs zs "server w" s] by simp
  ultimately show ?thesis
    by simp
qed










subsection \<open>The progress counter\<close>




lemma tableEffects_no_crash:
  "\<forall>e. Crash e \<notin> set (tableEffects fs c t) \<Longrightarrow> fs t \<noteq> None \<and> 2 \<le> length (tableSplits t)"
  by (auto simp: tableEffects_def Let_def split: if_splits option.splits)

lemma step_wellStarted:
  assumes "step exec fs cf cf'" "wellStarted fs cf"
  shows "wellStarted fs cf'"
  using assms(1)
proof cases
  case (dispatch t ts c)
  have "\<exists>pre. tableEffects fs c t = pre @ tableEffects fs c t \<and> (\<forall>e. Crash e \<notin> set pre)"
    by (intro exI [of _ "[]"]) simp
  with assms(2) dispatch(1) show ?thesis
    by (auto simp: wellStarted_def)
next
  case (work i c t x xs w1)
  from work(2,3) have mem: "Worker c t (x # xs) \<in> set (running cf)"
    by (metis nth_mem)
  with assms(2) obtain pre where
    pre: "tableEffects fs c t = pre @ x # xs" "\<forall>e. Crash e \<notin> set pre"
    by (force simp: wellStarted_def)
  from perform_Inr [OF work(4)] have "\<forall>e. x \<noteq> Crash e"
    by simp
  with pre have new: "\<exists>pre'. tableEffects fs c t = pre' @ xs \<and> (\<forall>e. Crash e \<notin> set pre')"
    by (intro exI [of _ "pre @ [x]"]) auto
  show ?thesis
    unfolding wellStarted_def
  proof
    fix wk assume "wk \<in> set (running cf')"
    with work(1) have "wk = Worker c t xs \<or> wk \<in> set (running cf)"
      using set_update_subset_insert [of "running cf" i "Worker c t xs"] by auto
    then show "\<exists>pre. tableEffects fs (wconn wk) (wtable wk) = pre @ todo wk \<and>
        (\<forall>e. Crash e \<notin> set pre)"
      using new assms(2) by (auto simp: wellStarted_def)
  qed
next
  case (crash i c t x xs e w1)
  have "set (take i (running cf) @ drop (Suc i) (running cf)) \<subseteq> set (running cf)"
    using set_take_subset [of i "running cf"] set_drop_subset [of "Suc i" "running cf"] by auto
  with assms(2) crash(1) show ?thesis
    by (auto simp: wellStarted_def)
next
  case (finish i c t exec' w r w')
  have "set (take i (running cf) @ drop (Suc i) (running cf)) \<subseteq> set (running cf)"
    using set_take_subset [of i "running cf"] set_drop_subset [of "Suc i" "running cf"] by auto
  with assms(2) finish(1) show ?thesis
    by (auto simp: wellStarted_def)
qed

lemma steps_wellStarted:
  assumes "(step exec fs)\<^sup>*\<^sup>* cf cf'" "wellStarted fs cf"
  shows "wellStarted fs cf'"
  using assms
proof (induction rule: rtranclp_induct)
  case base
  then show ?case by simp
next
  case (step cf1 cf2)
  from step.IH [OF step.prems] step.hyps(2) show ?case
    by (simp add: step_wellStarted)
qed

lemma replay_accepting: "replay (\<lambda>s c q. Some s) xs s = Some s"
  by (induction xs) simp_all

lemma finish_enabled:
  fixes exec :: "'s exec"
  assumes "Loader exec fs rnd vs free w0 cf"
    and "i < length (running cf)" "running cf ! i = Worker c t []"
  shows "\<exists>cf'. step exec fs cf cf' \<and>
           counter cf' = counter cf + of_nat (fileBytes fs t) \<and>
           running cf' = take i (running cf) @ drop (Suc i) (running cf)"
proof -
  from assms(1,2) obtain w ts where "(step exec fs)\<^sup>*\<^sup>* (dispatching w ts free) cf"
    by (cases rule: Loader.cases) (simp_all add: halted_def)
  moreover have "wellStarted fs (dispatching w ts free)"
    by (simp add: wellStarted_def dispatching_def)
  ultimately have "wellStarted fs cf"
    by (rule steps_wellStarted)
  moreover from assms(2,3) have "Worker c t [] \<in> set (running cf)"
    by (metis nth_mem)
  ultimately have "\<forall>e. Crash e \<notin> set (tableEffects fs c t)"
    by (force simp: wellStarted_def)
  from tableEffects_no_crash [OF this] obtain data where
    data: "fs t = Some data" "2 \<le> length (tableSplits t)"
    by auto
  let ?acc = "(\<lambda>s c q. Some s) :: 's exec"
  from restoreTable_returns [where fs = fs and t = t and data = data and exec = ?acc and c = c
      and w = "world cf" and s = "server (world cf)"] data
  obtain w' where "restoreTable ?acc fs c t (world cf) = Inr (length data, w')"
    by (auto simp: replay_accepting)
  with assms(2,3) have "step exec fs cf
      (cf\<lparr>counter := counter cf + of_nat (length data), pool := pool cf @ [c],
          running := take i (running cf) @ drop (Suc i) (running cf)\<rparr>)"
    by (intro step.finish [where exec' = ?acc and w = "world cf" and w' = w'])
  moreover from data(1) have "fileBytes fs t = length data"
    by (simp add: fileBytes_def ReadFile_def)
  ultimately show ?thesis
    by (intro exI [of _ "cf\<lparr>counter := counter cf + of_nat (length data), pool := pool cf @ [c],
          running := take i (running cf) @ drop (Suc i) (running cf)\<rparr>"]) simp
qed



lemma steps_worker:
  assumes "performAll exec xs (world cf) = Inr w'"
    "i < length (running cf)" "running cf ! i = Worker c t xs"
  shows "(step exec fs)\<^sup>*\<^sup>* cf (cf\<lparr>world := w', running := (running cf)[i := Worker c t []]\<rparr>)"
  using assms
proof (induction xs arbitrary: cf)
  case Nil
  then have "cf\<lparr>world := w', running := (running cf)[i := Worker c t []]\<rparr> = cf"
    by (simp add: list_update_same_conv [THEN iffD2])
  then show ?case by simp
next
  case (Cons x xs)
  from Cons.prems(1) obtain w1 where
    x: "perform exec x (world cf) = Inr w1" and xs: "performAll exec xs w1 = Inr w'"
    by (cases "perform exec x (world cf)") simp_all
  let ?cf1 = "cf\<lparr>world := w1, running := (running cf)[i := Worker c t xs]\<rparr>"
  have 1: "step exec fs cf ?cf1"
    using Cons.prems(2,3) x by (rule step.work)
  have "(step exec fs)\<^sup>*\<^sup>* ?cf1
      (?cf1\<lparr>world := w', running := (running ?cf1)[i := Worker c t []]\<rparr>)"
    using xs Cons.prems(2) by (intro Cons.IH) simp_all
  then have "(step exec fs)\<^sup>*\<^sup>* ?cf1
      (cf\<lparr>world := w', running := (running cf)[i := Worker c t []]\<rparr>)"
    by simp
  with 1 show ?case
    by (rule converse_rtranclp_into_rtranclp)
qed

lemma start_one_table:
  assumes "running cf = []" "queue cf = t # ts" "c \<in> set (pool cf)"
    "performAll exec (tableEffects fs c t) (world cf) = Inr w'"
  shows "(step exec fs)\<^sup>*\<^sup>* cf
     (cf\<lparr>world := w', pool := remove1 c (pool cf), queue := ts, running := [Worker c t []]\<rparr>)"
proof -
  let ?cf1 = "cf\<lparr>pool := remove1 c (pool cf), queue := ts,
      running := running cf @ [Worker c t (tableEffects fs c t)]\<rparr>"
  let ?cf2 = "?cf1\<lparr>world := w', running := (running ?cf1)[0 := Worker c t []]\<rparr>"
  have 1: "step exec fs cf ?cf1"
    using assms(2,3) by (rule step.dispatch)
  have 2: "(step exec fs)\<^sup>*\<^sup>* ?cf1 ?cf2"
    using assms(1,4) by (intro steps_worker) simp_all
  have "?cf2 = cf\<lparr>world := w', pool := remove1 c (pool cf), queue := ts,
      running := [Worker c t []]\<rparr>"
    using assms(1) by simp
  moreover from 1 2 have "(step exec fs)\<^sup>*\<^sup>* cf ?cf2"
    by (rule converse_rtranclp_into_rtranclp)
  ultimately show ?thesis
    by simp
qed

lemma finish_one_table:
  assumes "running cf = [Worker c t []]"
    "performAll exec (tableEffects fs c t) w = Inr w'"
  shows "step exec fs cf
     (cf\<lparr>counter := counter cf + of_nat (fileBytes fs t), pool := pool cf @ [c], running := []\<rparr>)"
proof -
  from assms(2) have "restoreTable exec fs c t w = Inr (fileBytes fs t, w')"
    by (simp add: restoreTable_performAll)
  with assms(1) have "step exec fs cf
     (cf\<lparr>counter := counter cf + of_nat (fileBytes fs t), pool := pool cf @ [c],
         running := take 0 (running cf) @ drop (Suc 0) (running cf)\<rparr>)"
    by (intro step.finish [where c = c and t = t and w = w and w' = w' and exec' = exec])
      simp_all
  with assms(1) show ?thesis
    by simp
qed

lemma run_one_table:
  assumes "running cf = []" "queue cf = t # ts" "c \<in> set (pool cf)"
    "performAll exec (tableEffects fs c t) (world cf) = Inr w'"
  shows "(step exec fs)\<^sup>*\<^sup>* cf
     (cf\<lparr>world := w', counter := counter cf + of_nat (fileBytes fs t),
         pool := remove1 c (pool cf) @ [c], queue := ts\<rparr>)"
proof -
  let ?cf2 = "cf\<lparr>world := w', pool := remove1 c (pool cf), queue := ts,
      running := [Worker c t []]\<rparr>"
  let ?cf3 = "?cf2\<lparr>counter := counter ?cf2 + of_nat (fileBytes fs t), pool := pool ?cf2 @ [c],
      running := []\<rparr>"
  have 2: "(step exec fs)\<^sup>*\<^sup>* cf ?cf2"
    using assms by (rule start_one_table)
  have 3: "step exec fs ?cf2 ?cf3"
    using _ assms(4) by (rule finish_one_table) simp
  have "?cf3 = cf\<lparr>world := w', counter := counter cf + of_nat (fileBytes fs t),
         pool := remove1 c (pool cf) @ [c], queue := ts\<rparr>"
    using assms(1) by simp
  moreover from 2 3 have "(step exec fs)\<^sup>*\<^sup>* cf ?cf3"
    by (rule rtranclp.rtrancl_into_rtrancl)
  ultimately show ?thesis
    by simp
qed

lemma ex_loadFiles: "loadFiles exVisits = Inr exFiles"
  by code_simp

lemma ex_schemaPhases: "schemaPhases exExec exFs 0 0 exFiles exWorld0 = Inr exWorld2"
  by code_simp

lemma ex_shuffle: "shuffle (\<lambda>i. 0) (tables exFiles) = Inr [''dump/db1.t1.sql'']"
  by code_simp

lemma ex_worker:
  "performAll exExec (tableEffects exFs 0 ''dump/db1.t1.sql'') exWorld2 = Inr exWorld4"
  by code_simp

lemma ex_bytes: "fileBytes exFs ''dump/db1.t1.sql'' = 58"
  by code_simp

lemma ex_run: "Loader exExec exFs (\<lambda>i. 0) exVisits [0] exWorld0 exFinal"
proof -
  let ?c0 = "dispatching exWorld2 [''dump/db1.t1.sql''] [0]"
  have "(step exExec exFs)\<^sup>*\<^sup>* ?c0
     (?c0\<lparr>world := exWorld4, counter := counter ?c0 + of_nat (fileBytes exFs ''dump/db1.t1.sql''),
         pool := remove1 0 (pool ?c0) @ [0], queue := []\<rparr>)"
    by (rule run_one_table) (simp_all add: dispatching_def ex_worker)
  then have "(step exExec exFs)\<^sup>*\<^sup>* ?c0 exFinal"
    by (simp add: dispatching_def exFinal_def ex_bytes)
  with ex_loadFiles _ _ ex_schemaPhases ex_shuffle show ?thesis
    by (rule Loader.dataPhase) simp_all
qed

subsection \<open>The run on the small dump\<close>



theorem schema_before_row_data_witness:
  "Loader exExec exFs (\<lambda>i. 0) exVisits [0] exWorld0 exFinal \<and>
   (\<exists>sch rows.
      calls (world exFinal) = calls exWorld0 @ sch @ rows \<and>
      list_all (\<lambda>x. ckind x \<noteq> TableFile) sch \<and> list_all (\<lambda>x. ckind x = TableFile) rows \<and>
      rows \<noteq> [] \<and>
      sch = dbCalls exFs 0 (databases exFiles) @ schemaCalls exFs 0 (schemas exFiles))"
proof -
  from schema_before_row_data [OF ex_run] obtain sch rows where
    1: "calls (world exFinal) = calls exWorld0 @ sch @ rows"
    and 2: "\<forall>x \<in> set sch. ckind x \<noteq> TableFile"
    and 3: "\<forall>x \<in> set rows. ckind x = TableFile"
    and 4: "rows \<noteq> [] \<longrightarrow>
              (\<exists>files c1 c2 s.
                 loadFiles exVisits = Inr files \<and>
                 sch = dbCalls exFs c1 (databases files) @ schemaCalls exFs c2 (schemas files) \<and>
                 replay exExec sch (server exWorld0) = Some s \<and>
                 (\<forall>f \<in> set (databases files) \<union> set (schemas files). exFs f \<noteq> None))"
    by blast
  have "Call TableFile ''dump/db1.t1.sql'' 0 ''use `db1`'' \<in> set (calls (world exFinal))"
    by (simp add: exFinal_def exWorld4_def)
  with 1 2 have ne: "rows \<noteq> []"
    by (auto simp: exWorld0_def)
  with 4 obtain c1 c2 where
    sch: "sch = dbCalls exFs c1 (databases exFiles) @ schemaCalls exFs c2 (schemas exFiles)"
    by (auto simp: ex_loadFiles)
  have len: "length sch = 3"
    unfolding sch by (simp add: dbCalls_def schemaCalls_def fileCalls_def exFiles_def) code_simp
  from 1 have "take 3 (calls (world exFinal)) = sch"
    using len by (simp add: exWorld0_def)
  moreover have "dbCalls exFs 0 (databases exFiles) @ schemaCalls exFs 0 (schemas exFiles) =
      take 3 (calls (world exFinal))"
    by code_simp
  ultimately have "sch = dbCalls exFs 0 (databases exFiles) @ schemaCalls exFs 0 (schemas exFiles)"
    by simp
  with ex_run 1 2 3 ne show ?thesis
    by (auto simp: list_all_iff)
qed


subsection \<open>The counter wraps\<close>













subsection \<open>Statements\<close>

text \<open>
  C6. When \<open>restoreTable\<close> or \<open>restoreTableSchema\<close> has processed a file, the calls
  it made for the file are the database selection followed by exactly the chunks of the
  file's full text that are not empty and do not begin with \<open>/*\<close>, in the order in
  which they appear in the text, all on the given connection. The chunks are the text
  split at \<open>";\n"\<close>: joined with the separator they give the text back, and no chunk
  contains the separator.
\<close>

theorem statements_executed_in_order:
  "(restoreTable exec fs c table w = Inr (n, w') \<longrightarrow>
      (\<exists>data. fs table = Some data \<and>
         calls w' = calls w @
           Call TableFile table c (useStmt (tableSplits table ! 0)) #
           map (Call TableFile table c)
             (filter (\<lambda>q. q \<noteq> [] \<and> \<not> HasPrefix q ''/*'') (Split data sep)))) \<and>
   (restoreTableSchema exec fs c scs w = Inr w'' \<longrightarrow>
      (\<forall>sc \<in> set scs. fs sc \<noteq> None) \<and>
      calls w'' = calls w @
        concat (map (\<lambda>sc.
          Call SchemaFile sc c (useStmt (schemaDb sc)) #
          map (Call SchemaFile sc c)
            (filter (\<lambda>q. q \<noteq> [] \<and> \<not> HasPrefix q ''/*'') (Split (the (fs sc)) sep))) scs)) \<and>
   Join (Split src sep) sep = src \<and> (\<forall>q \<in> set (Split src sep). \<not> Contains q sep)"
proof (intro conjI impI)
  assume "restoreTable exec fs c table w = Inr (n, w')"
  from restoreTable_Inr [OF this] obtain data where
    "fs table = Some data" "ran exec w (tableCalls fs c table) w'"
    by blast
  then show "\<exists>data. fs table = Some data \<and>
         calls w' = calls w @
           Call TableFile table c (useStmt (tableSplits table ! 0)) #
           map (Call TableFile table c)
             (filter (\<lambda>q. q \<noteq> [] \<and> \<not> HasPrefix q ''/*'') (Split data sep))"
    by (simp add: ran_def tableCalls_def fileCalls_def statements_def ReadFile_def
        isStatement_def [abs_def])
next
  assume run: "restoreTableSchema exec fs c scs w = Inr w''"
  from restoreTableSchema_Inr [OF run] show "\<forall>sc \<in> set scs. fs sc \<noteq> None"
    by simp
  then have "map (\<lambda>sc. fileCalls SchemaFile c sc (schemaDb sc) (fst (ReadFile fs sc))) scs =
      map (\<lambda>sc. Call SchemaFile sc c (useStmt (schemaDb sc)) #
          map (Call SchemaFile sc c)
            (filter (\<lambda>q. q \<noteq> [] \<and> \<not> HasPrefix q ''/*'') (Split (the (fs sc)) sep))) scs"
    by (intro map_cong refl)
       (auto simp: fileCalls_def statements_def ReadFile_def isStatement_def [abs_def])
  with restoreTableSchema_Inr [OF run] show "calls w'' = calls w @
        concat (map (\<lambda>sc.
          Call SchemaFile sc c (useStmt (schemaDb sc)) #
          map (Call SchemaFile sc c)
            (filter (\<lambda>q. q \<noteq> [] \<and> \<not> HasPrefix q ''/*'') (Split (the (fs sc)) sep))) scs)"
    by (simp add: ran_def schemaCalls_def)
next
  show "Join (Split src sep) sep = src"
    by (rule Join_Split)
next
  show "\<forall>q \<in> set (Split src sep). \<not> Contains q sep"
    using Split_no_sep [of sep _ src] by (auto simp: sep_def)
qed

theorem statements_executed_in_order_witness:
  "restoreTable exExec exFs 3 ''dump/db1.t1.sql'' exWorld0 =
     Inr (58, \<lparr>server = 3,
               calls = [Call TableFile ''dump/db1.t1.sql'' 3 ''use `db1`'',
                        Call TableFile ''dump/db1.t1.sql'' 3 ''INSERT INTO `t1` VALUES (1)'',
                        Call TableFile ''dump/db1.t1.sql'' 3 ''INSERT INTO `t1` VALUES (2)''],
               logs = [RestoringTables ''t1'' ''0'' 3, RestoringTablesDone ''t1'' ''0'' 3]\<rparr>) \<and>
   restoreTableSchema exExec exFs 3 [''dump/db1.t1-schema.sql''] exWorld0 =
     Inr \<lparr>server = 2,
          calls = [Call SchemaFile ''dump/db1.t1-schema.sql'' 3 ''use `db1`'',
                   Call SchemaFile ''dump/db1.t1-schema.sql'' 3 ''CREATE TABLE `t1` (`a` int)''],
          logs = [RestoringSchema ''db1.t1'']\<rparr> \<and>
   (\<exists>data. exFs ''dump/db1.t1.sql'' = Some data \<and>
      [Call TableFile ''dump/db1.t1.sql'' 3 ''use `db1`'',
       Call TableFile ''dump/db1.t1.sql'' 3 ''INSERT INTO `t1` VALUES (1)'',
       Call TableFile ''dump/db1.t1.sql'' 3 ''INSERT INTO `t1` VALUES (2)''] =
      Call TableFile ''dump/db1.t1.sql'' 3 (useStmt (tableSplits ''dump/db1.t1.sql'' ! 0)) #
       map (Call TableFile ''dump/db1.t1.sql'' 3)
         (filter (\<lambda>q. q \<noteq> [] \<and> \<not> HasPrefix q ''/*'') (Split data sep))) \<and>
   ''BAD'' \<in> set (Split (the (exBadFs ''dump/db1.t1.sql'')) sep) \<and>
   \<not> Contains ''BAD'' sep"
proof -
  let ?w1 = "\<lparr>server = 3::nat,
               calls = [Call TableFile ''dump/db1.t1.sql'' 3 ''use `db1`'',
                        Call TableFile ''dump/db1.t1.sql'' 3 ''INSERT INTO `t1` VALUES (1)'',
                        Call TableFile ''dump/db1.t1.sql'' 3 ''INSERT INTO `t1` VALUES (2)''],
               logs = [RestoringTables ''t1'' ''0'' 3, RestoringTablesDone ''t1'' ''0'' 3]\<rparr>"
  let ?w2 = "\<lparr>server = 2::nat,
          calls = [Call SchemaFile ''dump/db1.t1-schema.sql'' 3 ''use `db1`'',
                   Call SchemaFile ''dump/db1.t1-schema.sql'' 3 ''CREATE TABLE `t1` (`a` int)''],
          logs = [RestoringSchema ''db1.t1'']\<rparr>"
  have t: "restoreTable exExec exFs 3 ''dump/db1.t1.sql'' exWorld0 = Inr (58, ?w1)"
    by code_simp
  have sc: "restoreTableSchema exExec exFs 3 [''dump/db1.t1-schema.sql''] exWorld0 = Inr ?w2"
    by code_simp
  have ch: "''BAD'' \<in> set (Split (the (exBadFs ''dump/db1.t1.sql'')) sep)"
    by code_simp
  note inst = statements_executed_in_order [of exExec exFs 3 "''dump/db1.t1.sql''" exWorld0 58 ?w1
      "[''dump/db1.t1-schema.sql'']" ?w2 "the (exBadFs ''dump/db1.t1.sql'')"]
  have "\<exists>data. exFs ''dump/db1.t1.sql'' = Some data \<and>
      calls ?w1 = calls exWorld0 @
      Call TableFile ''dump/db1.t1.sql'' 3 (useStmt (tableSplits ''dump/db1.t1.sql'' ! 0)) #
       map (Call TableFile ''dump/db1.t1.sql'' 3)
         (filter (\<lambda>q. q \<noteq> [] \<and> \<not> HasPrefix q ''/*'') (Split data sep))"
    by (rule inst [THEN conjunct1, THEN mp, OF t])
  moreover have "\<not> Contains ''BAD'' sep"
    by (rule inst [THEN conjunct2, THEN conjunct2, THEN conjunct2, THEN bspec, OF ch])
  ultimately show ?thesis
    using t sc ch by (simp add: exWorld0_def)
qed

subsection \<open>Names by character trimming\<close>

text \<open>
  C2 does not hold of the code. \<open>restoreTableSchema\<close> and \<open>restoreTable\<close> strip the
  suffix with \<open>strings.Trim\<close>, which removes characters of the suffix from both ends of
  the base name. For the table-schema file \<open>sales.orders-schema.sql\<close> the selection
  statement names the database \<open>order\<close>, and for the data file
  \<open>sales.orders.00001.sql\<close> it names \<open>ales\<close>, where the first segment of the base
  name without its suffix is \<open>sales\<close>. (The server of the example rejects the
  statement \<open>BAD\<close>, so both runs end there; the selection statement is their first
  call.)
\<close>

theorem use_statement_names_trimmed_database:
  "restoreTableSchema exExec exBadFs 0 [''dump/sales.orders-schema.sql''] exWorld0 =
     Inl (ExecError 0 ''BAD'',
          \<lparr>server = 2,
           calls = [Call SchemaFile ''dump/sales.orders-schema.sql'' 0 ''use `order`'',
                    Call SchemaFile ''dump/sales.orders-schema.sql'' 0 ''INSERT 1'',
                    Call SchemaFile ''dump/sales.orders-schema.sql'' 0 ''BAD''],
           logs = []\<rparr>) \<and>
   Split (TrimSuffix (Base ''dump/sales.orders-schema.sql'') schemaSuffix) ''.'' =
     [''sales'', ''orders''] \<and>
   restoreTable exExec exBadFs 0 ''dump/sales.orders.00001.sql'' exWorld0 =
     Inl (ExecError 0 ''BAD'',
          \<lparr>server = 2,
           calls = [Call TableFile ''dump/sales.orders.00001.sql'' 0 ''use `ales`'',
                    Call TableFile ''dump/sales.orders.00001.sql'' 0 ''INSERT 1'',
                    Call TableFile ''dump/sales.orders.00001.sql'' 0 ''BAD''],
           logs = [RestoringTables ''orders'' ''00001'' 0]\<rparr>) \<and>
   Split (TrimSuffix (Base ''dump/sales.orders.00001.sql'') tableSuffix) ''.'' =
     [''sales'', ''orders'', ''00001'']"
  by code_simp

text \<open>
  C3 does not hold of the code. The data file \<open>app.sql.sql\<close> (database \<open>app\<close>,
  table \<open>sql\<close>) has two segments once the suffix \<open>.sql\<close> is removed, but
  \<open>strings.Trim\<close> also removes the table name and its dot, \<open>splits\<close> has one
  element, and \<open>splits[1]\<close> is out of range: \<open>restoreTable\<close> panics before its
  first call.
\<close>

theorem restoreTable_index_out_of_range:
  "Split (TrimSuffix (Base ''dump/app.sql.sql'') tableSuffix) ''.'' = [''app'', ''sql''] \<and>
   tableSplits ''dump/app.sql.sql'' = [''app''] \<and>
   restoreTable exExec exFs 0 ''dump/app.sql.sql'' exWorld0 =
     Inl (IndexOutOfRange 1 1, exWorld0)"
  by code_simp

subsection \<open>Failures\<close>







subsection \<open>The reporter after the stop\<close>

lemma rsteps_waiting: "rstep\<^sup>*\<^sup>* started r \<Longrightarrow> at_pc r = Waiting \<and> \<not> closed r"
proof (induction rule: rtranclp_induct)
  case base
  then show ?case by (simp add: started_def)
next
  case (step r1 r2)
  from step.hyps(2) step.IH show ?case
    by cases simp_all
qed

text \<open>
  C9 does not hold of the code. The loader stops the reporter with \<open>tick.Stop()\<close>
  only, and nothing closes the channel: in every state the reporter can reach it is
  still in its loop, and once the ticker is stopped and the channel is empty the
  goroutine is blocked on the channel for good; the only step left is stopping the
  ticker again, which changes nothing.
\<close>

theorem reporter_never_leaves:
  assumes "rstep\<^sup>*\<^sup>* started r"
  shows "at_pc r = Waiting \<and> \<not> closed r \<and>
         (stopped r \<and> \<not> buffered r \<longrightarrow> blocked r \<and> (\<forall>r'. rstep r r' \<longrightarrow> r' = r))"
proof -
  from rsteps_waiting [OF assms] have inv: "at_pc r = Waiting" "\<not> closed r"
    by simp_all
  have "r' = r" if "stopped r" "\<not> buffered r" "rstep r r'" for r'
    using that(3) that(1,2) inv by cases simp_all
  with inv show ?thesis
    by (auto simp: blocked_def)
qed

theorem reporter_never_leaves_witness:
  "rstep\<^sup>*\<^sup>* started (started\<lparr>stopped := True\<rparr>) \<and>
   stopped (started\<lparr>stopped := True\<rparr>) \<and> \<not> buffered (started\<lparr>stopped := True\<rparr>) \<and>
   at_pc (started\<lparr>stopped := True\<rparr>) = Waiting \<and> blocked (started\<lparr>stopped := True\<rparr>) \<and>
   rstep (started\<lparr>stopped := True\<rparr>) (started\<lparr>stopped := True\<rparr>)"
proof -
  let ?r = "started\<lparr>stopped := True\<rparr>"
  have "rstep started ?r"
    by (rule rstep.stop)
  then have run: "rstep\<^sup>*\<^sup>* started ?r"
    by (rule r_into_rtranclp)
  have again: "rstep ?r ?r"
    using rstep.stop [of ?r] by simp
  have st: "stopped ?r" "\<not> buffered ?r"
    by (simp_all add: started_def)
  from reporter_never_leaves [OF run] st have "at_pc ?r = Waiting" "blocked ?r"
    by blast+
  with run st again show ?thesis
    by blast
qed


end
